theory Spec2Isabelle
  imports Complex_Main "HOL-Library.Multiset"
begin

section \<open>Exceptions\<close>

text \<open>
  The Python exceptions that the modelled code of \<^verbatim>\<open>data.py\<close> can raise: a failed
  \<^verbatim>\<open>assert\<close>, a division or remainder by zero, a list index out of range, a missing
  dictionary key, the \<^verbatim>\<open>ValueError\<close> of \<^verbatim>\<open>max\<close>, \<^verbatim>\<open>np.max\<close> and \<^verbatim>\<open>np.stack\<close>, and
  the \<^verbatim>\<open>TypeError\<close> of arithmetic on \<^verbatim>\<open>None\<close>.
\<close>

datatype error =
  AssertionError | ZeroDivisionError | IndexError | KeyError | ValueError | TypeError

section \<open>The Group-Constrained Shuffler: \<^verbatim>\<open>DataBase.group_shuffle\<close>\<close>

text \<open>
  A dataset entry is a tuple; \<^verbatim>\<open>d[0]\<close> is its first component. Both discovery
  strategies build the entries as \<^verbatim>\<open>(file, label)\<close>, so the first component is the
  sample reference and the second one the label. Sizes (\<^verbatim>\<open>batch_size\<close>,
  \<^verbatim>\<open>group_size\<close>) are counts and are modelled as natural numbers.

  The list is mutated in place and an exception can leave it half-way: every function
  below returns the exception raised, if any, together with the contents of the list
  at that moment.
\<close>

text \<open>\<^verbatim>\<open>dataset[i : j]\<close> for indices that are not negative.\<close>

definition py_slice :: "'e list \<Rightarrow> nat \<Rightarrow> nat \<Rightarrow> 'e list" where
  "py_slice xs i j = take (j - i) (drop i xs)"

text \<open>\<^verbatim>\<open>range(lo, hi, step)\<close> for \<^verbatim>\<open>lo = 0\<close> and a positive step.\<close>

definition range_step :: "nat \<Rightarrow> nat \<Rightarrow> nat list" where
  "range_step hi step = map (\<lambda>n. n * step) [0..<(hi + step - 1) div step]"

text \<open>
  \<^verbatim>\<open>while len(dataset) % batch_size > 0: dataset.pop()\<close>, for a batch size that is
  not zero (the caller raises \<^verbatim>\<open>ZeroDivisionError\<close> before the loop otherwise).
\<close>

function pop_to_multiple :: "nat \<Rightarrow> 'e list \<Rightarrow> 'e list" where
  "pop_to_multiple batch_size dataset =
     (if length dataset mod batch_size > 0
      then pop_to_multiple batch_size (butlast dataset)
      else dataset)"
  by pat_completeness auto
termination
proof (relation "measure (\<lambda>(b, ds). length ds)")
  show "wf (measure (\<lambda>(b :: nat, ds :: 'e list). length ds))"
    by simp
next
  fix batch_size :: nat and dataset :: "'e list"
  assume "0 < length dataset mod batch_size"
  then have "dataset \<noteq> []"
    by auto
  then show "((batch_size, butlast dataset), (batch_size, dataset))
               \<in> measure (\<lambda>(b, ds). length ds)"
    by simp
qed

declare pop_to_multiple.simps [simp del]

text \<open>
  The inner loop \<^verbatim>\<open>for k in range(j, upper)\<close> of one window. The range is computed
  once, from the value \<^verbatim>\<open>j\<close> has before the loop, so the loop is a recursion over the
  list of the positions \<^verbatim>\<open>k\<close> still to visit. The state is the dataset, the position
  pointer \<^verbatim>\<open>j\<close>, the list \<^verbatim>\<open>ids\<close> and the dictionary \<^verbatim>\<open>counts\<close>; \<open>stop\<close> is
  \<^verbatim>\<open>i + batch_size\<close>.
\<close>

type_synonym ('a, 'b) scan_state = "('a \<times> 'b) list \<times> nat \<times> 'a list \<times> ('a \<rightharpoonup> int)"

fun scan :: "nat \<Rightarrow> nat list \<Rightarrow> ('a, 'b) scan_state \<Rightarrow> error option \<times> ('a, 'b) scan_state" where
  "scan stop [] st = (None, st)"
| "scan stop (k # ks) (dataset, j, ids, counts) =
     (if length dataset \<le> k then (Some IndexError, (dataset, j, ids, counts))
      else
        let data = dataset ! k; id' = fst data in
        if id' \<in> set ids then
          (case counts id' of
             None \<Rightarrow> (Some KeyError, (dataset, j, ids, counts))
           | Some c \<Rightarrow>
               if c > 0 then
                 let counts' = counts(id' \<mapsto> c - 1);
                     ids' = (if c - 1 \<le> 0 then remove1 id' ids else ids)
                 in
                   if length dataset \<le> j then (Some IndexError, (dataset, j, ids', counts'))
                   else
                     let dataset' = (dataset[k := dataset ! j])[j := data];
                         j' = j + 1
                     in
                       if j' \<ge> stop then (None, (dataset', j', ids', counts'))
                       else scan stop ks (dataset', j', ids', counts')
               else scan stop ks (dataset, j, ids, counts))
        else scan stop ks (dataset, j, ids, counts))"

text \<open>
  The body of \<^verbatim>\<open>for i in range(0, upper, batch_size)\<close>: the representatives are the
  first components of \<^verbatim>\<open>dataset[i : j]\<close>, the dictionary gives each of
  \<^verbatim>\<open>ids[0], ..., ids[batch_groups - 1]\<close> the value \<^verbatim>\<open>group_size - 1\<close> (an
  \<^verbatim>\<open>IndexError\<close> if the slice is shorter than that), then the scan runs over
  \<^verbatim>\<open>range(j, upper)\<close>.
\<close>

definition window_pass ::
  "nat \<Rightarrow> nat \<Rightarrow> nat \<Rightarrow> nat \<Rightarrow> nat \<Rightarrow> ('a \<times> 'b) list \<Rightarrow> error option \<times> ('a \<times> 'b) list" where
  "window_pass batch_size group_size batch_groups upper i dataset =
     (let j = i + batch_groups;
          ids = map fst (py_slice dataset i j)
      in
        if length ids < batch_groups then (Some IndexError, dataset)
        else
          let counts = map_of (map (\<lambda>x. (x, int group_size - 1)) (take batch_groups ids))
          in case scan (i + batch_size) [j..<upper] (dataset, j, ids, counts) of
               (e, (dataset', _)) \<Rightarrow> (e, dataset'))"

fun batches_loop ::
  "nat \<Rightarrow> nat \<Rightarrow> nat \<Rightarrow> nat \<Rightarrow> nat list \<Rightarrow> ('a \<times> 'b) list \<Rightarrow> error option \<times> ('a \<times> 'b) list" where
  "batches_loop batch_size group_size batch_groups upper [] dataset = (None, dataset)"
| "batches_loop batch_size group_size batch_groups upper (i # is) dataset =
     (case window_pass batch_size group_size batch_groups upper i dataset of
        (Some e, dataset') \<Rightarrow> (Some e, dataset')
      | (None, dataset') \<Rightarrow> batches_loop batch_size group_size batch_groups upper is dataset')"

text \<open>
  \<^verbatim>\<open>group_shuffle(dataset, batch_size, shuffle, group_size)\<close>. The outcome of
  \<^verbatim>\<open>random.shuffle\<close> is the parameter \<open>rnd\<close>: the theorems below take it to be any
  function that returns a permutation of its argument.
\<close>

definition group_shuffle ::
  "(('a \<times> 'b) list \<Rightarrow> ('a \<times> 'b) list) \<Rightarrow> ('a \<times> 'b) list \<Rightarrow> nat \<Rightarrow> bool \<Rightarrow> nat
     \<Rightarrow> error option \<times> ('a \<times> 'b) list" where
  "group_shuffle rnd dataset batch_size shuffle group_size =
     (let shuffled = (if shuffle then rnd dataset else dataset) in
      if batch_size = 0 then (Some ZeroDivisionError, shuffled)
      else
        let trimmed = pop_to_multiple batch_size shuffled;
            upper = length trimmed
        in
          if group_size = 0 then (Some ZeroDivisionError, trimmed)
          else if batch_size mod group_size \<noteq> 0 then (Some AssertionError, trimmed)
          else
            let batch_groups = batch_size div group_size
            in batches_loop batch_size group_size batch_groups upper
                 (range_step upper batch_size) trimmed)"

text \<open>
  The scan of one window, stated without the bookkeeping of the loop. \<open>taken\<close> goes
  through the positions to visit, each with the first component of the entry it holds,
  in order: an entry is taken when the counter of its first component is still
  positive, which lowers that counter by one, and nothing more is taken once \<open>room\<close>
  entries have been taken. \<open>swap_in\<close> swaps the entries at the taken positions, in
  that order, into the positions \<open>j\<close>, \<open>j + 1\<close>, ... of the list.
\<close>

fun taken :: "('a \<rightharpoonup> int) \<Rightarrow> nat \<Rightarrow> (nat \<times> 'a) list \<Rightarrow> nat list" where
  "taken counts room [] = []"
| "taken counts room ((k, key) # rest) =
     (if room = 0 then []
      else
        (case counts key of
           None \<Rightarrow> taken counts room rest
         | Some c \<Rightarrow>
             if 0 < c then k # taken (counts(key \<mapsto> c - 1)) (room - 1) rest
             else taken counts room rest))"

fun swap_in :: "nat \<Rightarrow> nat list \<Rightarrow> 'e list \<Rightarrow> 'e list" where
  "swap_in j [] dataset = dataset"
| "swap_in j (k # ks) dataset =
     swap_in (j + 1) ks ((dataset[k := dataset ! j])[j := dataset ! k])"

section \<open>The batch generator:\<^verbatim>\<open>DataBase._gen_batches_origin\<close>\<close>

text \<open>
  The generator aliases the caller's list (\<^verbatim>\<open>_dataset = dataset\<close>), copies it
  (\<^verbatim>\<open>dataset.copy()\<close>) and has \<^verbatim>\<open>group_shuffle\<close> mutate a list in place, so the list
  objects live in an explicit heap: a list of list objects, the address of an object
  being its index. A copy allocates a new object at the end of the heap. A Python
  reference always points to an existing object: the addresses handed to the functions
  below are below the length of the heap.
\<close>

type_synonym 'e heap = "'e list list"

definition list_copy :: "'e heap \<Rightarrow> nat \<Rightarrow> 'e heap \<times> nat" where
  "list_copy h a = (h @ [h ! a], length h)"

text \<open>\<^verbatim>\<open>group_shuffle\<close> run on the list object at address \<open>a\<close>.\<close>

definition group_shuffle_at ::
  "(('a \<times> 'b) list \<Rightarrow> ('a \<times> 'b) list) \<Rightarrow> nat \<Rightarrow> nat \<Rightarrow> bool \<Rightarrow> nat \<Rightarrow> ('a \<times> 'b) heap
     \<Rightarrow> error option \<times> ('a \<times> 'b) heap" where
  "group_shuffle_at rnd a batch_size shuffle group_size h =
     (case group_shuffle rnd (h ! a) batch_size shuffle group_size of
        (e, xs) \<Rightarrow> (e, h[a := xs]))"

text \<open>
  The inner loop \<^verbatim>\<open>for step in range(step_start, step_stop)\<close>: the windows
  \<^verbatim>\<open>_dataset[offset : upper]\<close> handed to \<^verbatim>\<open>extract_batch\<close>, in the order of submission,
  which is the order in which the batches are yielded (the futures are popped from the
  front of the list).
\<close>

definition step_windows :: "'e list \<Rightarrow> nat \<Rightarrow> nat \<Rightarrow> nat \<Rightarrow> 'e list list" where
  "step_windows ds batch_size step_start step_stop =
     map (\<lambda>step.
            let offset = step * batch_size;
                upper = min (length ds) (offset + batch_size)
            in py_slice ds offset upper)
         [step_start..<step_stop]"

text \<open>
  The loop over the epochs. \<open>rnd epoch\<close> is the outcome of \<^verbatim>\<open>random.shuffle\<close> in that
  epoch, \<open>dataset\<close> the address of the caller's list and \<open>cur\<close> the address held by the
  local variable \<^verbatim>\<open>_dataset\<close>. The result is the list of windows submitted, the exception
  that ended the generator, if any, and the heap. \<^verbatim>\<open>max(0, start - step_offset)\<close> cuts the
  difference at zero, as the subtraction on natural numbers does; \<^verbatim>\<open>max_steps - step_offset\<close>
  is never negative for an epoch below \<^verbatim>\<open>num_epochs\<close>. The prefetch depth is taken to be
  positive, so that every submitted window is yielded, in the order of submission.
\<close>

fun epochs_loop ::
  "(nat \<Rightarrow> ('a \<times> 'b) list \<Rightarrow> ('a \<times> 'b) list) \<Rightarrow> nat \<Rightarrow> nat \<Rightarrow> nat \<Rightarrow> nat \<Rightarrow> nat \<Rightarrow> nat \<Rightarrow> bool
     \<Rightarrow> nat list \<Rightarrow> ('a \<times> 'b) heap \<Rightarrow> nat
     \<Rightarrow> ('a \<times> 'b) list list \<times> error option \<times> ('a \<times> 'b) heap" where
  "epochs_loop rnd batch_size group_size dataset epoch_steps max_steps start shuffle [] h cur =
     ([], None, h)"
| "epochs_loop rnd batch_size group_size dataset epoch_steps max_steps start shuffle
     (epoch # epochs) h cur =
     (let step_offset = epoch_steps * epoch;
          step_start = max 0 (start - step_offset);
          step_stop = min epoch_steps (max_steps - step_offset)
      in
        if epoch > 0 then
          (case list_copy h dataset of
             (h1, cur1) \<Rightarrow>
               (case group_shuffle_at (rnd epoch) cur1 batch_size shuffle group_size h1 of
                  (Some e, h2) \<Rightarrow> ([], Some e, h2)
                | (None, h2) \<Rightarrow>
                    (case epochs_loop rnd batch_size group_size dataset epoch_steps max_steps
                            start shuffle epochs h2 cur1 of
                       (ws, r) \<Rightarrow>
                         (step_windows (h2 ! cur1) batch_size step_start step_stop @ ws, r))))
        else
          (case epochs_loop rnd batch_size group_size dataset epoch_steps max_steps
                  start shuffle epochs h cur of
             (ws, r) \<Rightarrow> (step_windows (h ! cur) batch_size step_start step_stop @ ws, r)))"

definition gen_batches_origin ::
  "(nat \<Rightarrow> ('a \<times> 'b) list \<Rightarrow> ('a \<times> 'b) list) \<Rightarrow> nat \<Rightarrow> nat \<Rightarrow> ('a \<times> 'b) heap \<Rightarrow> nat
     \<Rightarrow> nat \<Rightarrow> nat \<Rightarrow> nat \<Rightarrow> bool
     \<Rightarrow> ('a \<times> 'b) list list \<times> error option \<times> ('a \<times> 'b) heap" where
  "gen_batches_origin rnd batch_size group_size h dataset epoch_steps num_epochs start shuffle =
     (let max_steps = epoch_steps * num_epochs in
      if epoch_steps = 0 then ([], Some ZeroDivisionError, h)
      else epochs_loop rnd batch_size group_size dataset epoch_steps max_steps start shuffle
             [start div epoch_steps..<num_epochs] h dataset)"

text \<open>
  The list an epoch draws its windows from, in the words of the specification: epoch 0
  uses the list as handed in, every later epoch the result of the shuffler on a copy of
  that list.
\<close>

definition epoch_dataset ::
  "(nat \<Rightarrow> ('a \<times> 'b) list \<Rightarrow> ('a \<times> 'b) list) \<Rightarrow> nat \<Rightarrow> nat \<Rightarrow> bool \<Rightarrow> ('a \<times> 'b) list \<Rightarrow> nat
     \<Rightarrow> ('a \<times> 'b) list" where
  "epoch_dataset rnd batch_size group_size shuffle original epoch =
     (if epoch = 0 then original
      else snd (group_shuffle (rnd epoch) original batch_size shuffle group_size))"

section \<open>Normalization: \<^verbatim>\<open>DataBase.process_sample\<close>\<close>

text \<open>
  The part of \<^verbatim>\<open>process_sample\<close> between decoding and augmentation, on the one channel
  of the decoded signal: \<^verbatim>\<open>audio_max = np.max(data)\<close>, the scaling by
  \<^verbatim>\<open>1 / audio_max\<close> and the zero padding up to \<^verbatim>\<open>slice_samples\<close>. The samples are
  real numbers: the arithmetic of the model is exact.
\<close>

definition process_sample :: "real list \<Rightarrow> nat \<Rightarrow> error + real list" where
  "process_sample data slice_samples =
     (if data = [] then Inl ValueError
      else
        let audio_max = Max (set data);
            samples = length data;
            data1 = (if audio_max > 1 / 1000000
                     then map (\<lambda>x. x * (1 / audio_max)) data
                     else data)
        in Inr (if samples < slice_samples
                then data1 @ replicate (slice_samples - samples) 0
                else data1))"

text \<open>The peak absolute amplitude of a signal.\<close>

definition peak :: "real list \<Rightarrow> real" where
  "peak xs = Max (set (map abs xs))"

section \<open>Batch assembly: \<^verbatim>\<open>DataBase.extract_batch\<close>\<close>

text \<open>
  The claims on \<^verbatim>\<open>extract_batch\<close> are on the shapes of the arrays, so an array is
  modelled by its shape, the list of its dimensions. \<^verbatim>\<open>process_sample\<close> returns a
  two-dimensional array \<^verbatim>\<open>(1, n)\<close>: the mono signal of \<^verbatim>\<open>librosa.load\<close> is
  one-dimensional and gets a leading axis from \<^verbatim>\<open>np.expand_dims(data, 0)\<close>, and the
  padding of \<^verbatim>\<open>process_sample\<close> is on the last axis only.
\<close>

type_synonym shape = "nat list"

text \<open>
  \<^verbatim>\<open>np.pad(a, (0, d), 'constant')\<close>: a pad width \<^verbatim>\<open>(before, after)\<close> is applied to
  every axis of the array.
\<close>

definition np_pad :: "nat \<Rightarrow> shape \<Rightarrow> shape" where
  "np_pad d sh = map (\<lambda>n. n + d) sh"

text \<open>\<^verbatim>\<open>np.stack\<close>: the arrays must all have the same shape, and there must be one.\<close>

definition np_stack :: "shape list \<Rightarrow> error + shape" where
  "np_stack shs =
     (case shs of
        [] \<Rightarrow> Inl ValueError
      | sh # rest \<Rightarrow> if list_all (\<lambda>t. t = sh) rest then Inr (length shs # sh) else Inl ValueError)"

text \<open>\<^verbatim>\<open>np.expand_dims(a, -2)\<close>: a new axis before the last one.\<close>

definition expand_dims :: "shape \<Rightarrow> shape" where
  "expand_dims sh = butlast sh @ [1] @ [last sh]"

text \<open>
  The attributes of \<^verbatim>\<open>config\<close> that \<^verbatim>\<open>process_sample\<close> and \<^verbatim>\<open>extract_batch\<close> read
  before augmentation.
\<close>

record config =
  pp_rate :: int
  pp_duration :: real

text \<open>
  What \<^verbatim>\<open>process_sample\<close> gets from outside the program. \<open>get_duration\<close> is
  \<^verbatim>\<open>librosa.get_duration(filename=file)\<close>; \<open>librosa_load file sr offset duration\<close> is the
  pair \<^verbatim>\<open>(data, rate)\<close> returned by
  \<^verbatim>\<open>librosa.load(file, sr=sr, mono=True, offset=offset, duration=duration)\<close>, the signal
  as the list of its samples; \<open>random_uniform k hi\<close> is the outcome of
  \<^verbatim>\<open>random.uniform(0, hi)\<close> and \<open>pp_process k data\<close> the outcome of the random
  augmentation \<^verbatim>\<open>DataPP.process(data, config)\<close> in the call of \<^verbatim>\<open>process_sample\<close> for
  the entry at position \<open>k\<close> of the window.
\<close>

record 'f audio =
  get_duration :: "'f \<Rightarrow> real"
  random_uniform :: "nat \<Rightarrow> real \<Rightarrow> real"
  librosa_load :: "'f \<Rightarrow> nat option \<Rightarrow> real \<Rightarrow> real \<Rightarrow> real list \<times> nat"
  pp_process :: "nat \<Rightarrow> real list \<Rightarrow> real list"

text \<open>
  \<^verbatim>\<open>process_sample(file, label, config)\<close> as a whole, for the entry at position \<open>k\<close> of
  the window: the choice of the sample rate, of the slice duration and of the offset,
  the decoding, then the part of the function that is \<open>process_sample\<close> above (where
  \<^verbatim>\<open>np.max\<close> raises on a signal without samples), then the augmentation.
  \<^verbatim>\<open>int(slice_duration * rate + 0.5)\<close> truncates a number that is not negative.
\<close>

definition process_sample_file ::
  "'f audio \<Rightarrow> config \<Rightarrow> nat \<Rightarrow> 'f \<Rightarrow> 'l \<Rightarrow> error + (real list \<times> 'l)" where
  "process_sample_file io config k file label =
     (let sample_rate = (if pp_rate config > 0 then Some (nat (pp_rate config)) else None);
          slice_duration = \<bar>pp_duration config\<bar>;
          duration = get_duration io file;
          offset = (if pp_duration config > 0 \<and> duration > slice_duration
                    then random_uniform io k (duration - slice_duration)
                    else 0)
      in
        case librosa_load io file sample_rate offset slice_duration of
          (data, rate) \<Rightarrow>
            let slice_samples = nat \<lfloor>slice_duration * real rate + 1 / 2\<rfloor>
            in
              (case process_sample data slice_samples of
                 Inl e \<Rightarrow> Inl e
               | Inr data' \<Rightarrow> Inr (pp_process io k data', label)))"

text \<open>
  The loop \<^verbatim>\<open>for file, label in batch_set\<close> of \<^verbatim>\<open>extract_batch\<close>, from the entry at
  position \<open>k\<close> on. Both branches on \<^verbatim>\<open>config.threads\<close> collect the results of
  \<^verbatim>\<open>process_sample\<close> in the order of \<^verbatim>\<open>batch_set\<close>, and the first exception in that
  order is the one that leaves \<^verbatim>\<open>extract_batch\<close>. An input is kept as the shape
  \<^verbatim>\<open>(1, n)\<close> of the array.
\<close>

fun load_data ::
  "'f audio \<Rightarrow> config \<Rightarrow> nat \<Rightarrow> ('f \<times> 'l) list \<Rightarrow> error + (shape list \<times> 'l list)" where
  "load_data io config k [] = Inr ([], [])"
| "load_data io config k ((file, label) # rest) =
     (case process_sample_file io config k file label of
        Inl e \<Rightarrow> Inl e
      | Inr (input, label') \<Rightarrow>
          (case load_data io config (k + 1) rest of
             Inl e \<Rightarrow> Inl e
           | Inr (inputs, labels) \<Rightarrow> Inr ([1, length input] # inputs, label' # labels)))"

text \<open>
  \<^verbatim>\<open>extract_batch(batch_set, config)\<close>. The result is the shape of \<^verbatim>\<open>inputs\<close> and the
  list \<^verbatim>\<open>labels\<close>.
\<close>

definition extract_batch ::
  "'f audio \<Rightarrow> config \<Rightarrow> ('f \<times> 'l) list \<Rightarrow> error + (shape \<times> 'l list)" where
  "extract_batch io config batch_set =
     (case load_data io config 0 batch_set of
        Inl e \<Rightarrow> Inl e
      | Inr (inputs, labels) \<Rightarrow>
          (case (if pp_duration config \<le> 0 then
                   (if inputs = [] then Inl ValueError
                    else
                      let max_samples = Max (set (map last inputs))
                      in Inr (map (\<lambda>i. np_pad (max_samples - last i) i) inputs))
                 else Inr inputs) of
             Inl e \<Rightarrow> Inl e
           | Inr inputs' \<Rightarrow>
               (case np_stack inputs' of
                  Inl e \<Rightarrow> Inl e
                | Inr stacked \<Rightarrow> Inr (expand_dims stacked, labels))))"

section \<open>The Dataset Partitioner: \<^verbatim>\<open>DataBase.get_files\<close>\<close>

text \<open>
  The object \<^verbatim>\<open>self\<close>, with the attributes that partitioning reads and writes. An
  attribute that can be \<^verbatim>\<open>None\<close> or not set at all is an option. The entries of a
  packed dataset are archive paths, those of an unpacked one \<^verbatim>\<open>(file, label)\<close> pairs.
\<close>

record 'e data_base =
  batch_size :: nat
  val_size :: "nat option"
  max_steps :: "nat option"
  num_epochs :: "nat option"
  packed :: bool
  shuffle :: bool
  group_size :: nat
  val_steps :: "nat option"
  val_set :: "'e list option"
  epoch_steps :: nat
  epoch_size :: nat
  main_set :: "'e list"

text \<open>
  \<^verbatim>\<open>get_files_packed\<close>; \<open>listing\<close> is the list of the joined paths of
  \<^verbatim>\<open>os.listdir(self.dataset)\<close>.
\<close>

definition get_files_packed :: "'e data_base \<Rightarrow> 'e list \<Rightarrow> error + 'e data_base" where
  "get_files_packed self listing =
     (case (case val_size self of
              Some v \<Rightarrow>
                if batch_size self = 0 then Inl ZeroDivisionError
                else
                  let vs = v div batch_size self in
                  if \<not> vs < length listing then Inl AssertionError
                  else Inr (self\<lparr>val_steps := Some vs,
                                 val_size := Some (vs * batch_size self),
                                 val_set := Some (take vs listing)\<rparr>,
                            drop vs listing)
            | None \<Rightarrow> Inr (self, listing)) of
        Inl e \<Rightarrow> Inl e
      | Inr (self1, data_list) \<Rightarrow>
          let self2 = self1\<lparr>epoch_steps := length data_list,
                            epoch_size := length data_list * batch_size self1\<rparr>
          in
            (case max_steps self2 of
               None \<Rightarrow>
                 (case num_epochs self2 of
                    None \<Rightarrow> Inl TypeError
                  | Some n \<Rightarrow>
                      Inr (self2\<lparr>max_steps := Some (epoch_steps self2 * n),
                                 main_set := data_list\<rparr>))
             | Some m \<Rightarrow>
                 if epoch_steps self2 = 0 then Inl ZeroDivisionError
                 else
                   Inr (self2\<lparr>num_epochs :=
                                 Some ((m + epoch_steps self2 - 1) div epoch_steps self2),
                              main_set := data_list\<rparr>)))"

text \<open>
  \<^verbatim>\<open>get_files\<close>; \<open>listing\<close> is the directory listing for a packed dataset and the
  list returned by \<^verbatim>\<open>self.get_files_origin()\<close> for an unpacked one.
\<close>

definition get_files :: "'e data_base \<Rightarrow> 'e list \<Rightarrow> error + 'e data_base" where
  "get_files self listing =
     (if packed self then get_files_packed self listing
      else
        (case (case val_size self of
                 Some v \<Rightarrow>
                   if \<not> v < length listing then Inl AssertionError
                   else if batch_size self = 0 then Inl ZeroDivisionError
                   else
                     let vs = v div batch_size self;
                         v' = vs * batch_size self
                     in Inr (self\<lparr>val_steps := Some vs,
                                   val_size := Some v',
                                   val_set := Some (take v' listing)\<rparr>,
                             drop v' listing)
               | None \<Rightarrow> Inr (self, listing)) of
           Inl e \<Rightarrow> Inl e
         | Inr (self1, data_list) \<Rightarrow>
             if \<not> batch_size self1 \<le> length data_list then Inl AssertionError
             else if batch_size self1 = 0 then Inl ZeroDivisionError
             else
               let self2 = self1\<lparr>epoch_steps := length data_list div batch_size self1\<rparr>;
                   self3 = self2\<lparr>epoch_size := epoch_steps self2 * batch_size self2\<rparr>
               in
                 (case max_steps self3 of
                    None \<Rightarrow>
                      (case num_epochs self3 of
                         None \<Rightarrow> Inl TypeError
                       | Some n \<Rightarrow>
                           Inr (self3\<lparr>max_steps := Some (epoch_steps self3 * n),
                                      main_set := take (epoch_size self3) data_list\<rparr>))
                  | Some m \<Rightarrow>
                      if epoch_steps self3 = 0 then Inl ZeroDivisionError
                      else
                        Inr (self3\<lparr>num_epochs :=
                                      Some ((m + epoch_steps self3 - 1) div epoch_steps self3),
                                   main_set := take (epoch_size self3) data_list\<rparr>))))"

text \<open>
  \<^verbatim>\<open>get_files_origin\<close> of \<^verbatim>\<open>DataVoxCeleb\<close> and of \<^verbatim>\<open>DataSpeech\<close>: both build the list
  of \<^verbatim>\<open>(file, label)\<close> pairs from the directory listing (here the parameter
  \<open>data_list\<close>), run \<^verbatim>\<open>group_shuffle\<close> on it and return it.
\<close>

definition get_files_origin ::
  "(('a \<times> 'b) list \<Rightarrow> ('a \<times> 'b) list) \<Rightarrow> ('a \<times> 'b) data_base \<Rightarrow> ('a \<times> 'b) list
     \<Rightarrow> error + ('a \<times> 'b) list" where
  "get_files_origin rnd self data_list =
     (case group_shuffle rnd data_list (batch_size self) (shuffle self) (group_size self) of
        (Some e, _) \<Rightarrow> Inl e
      | (None, data_list') \<Rightarrow> Inr data_list')"

section \<open>Example configurations\<close>

text \<open>
  Three objects as \<^verbatim>\<open>__init__\<close> leaves them before \<^verbatim>\<open>get_files\<close> runs, used to evaluate
  the partitioner on concrete inputs.
\<close>

definition packed_example :: "string data_base" where
  "packed_example =
     \<lparr>batch_size = 3, val_size = Some 3, max_steps = None, num_epochs = Some 1,
      packed = True, shuffle = False, group_size = 1, val_steps = None, val_set = None,
      epoch_steps = 0, epoch_size = 0, main_set = []\<rparr>"

definition packed_oversized :: "string data_base" where
  "packed_oversized =
     \<lparr>batch_size = 7, val_size = Some 8, max_steps = None, num_epochs = Some 1,
      packed = True, shuffle = False, group_size = 1, val_steps = None, val_set = None,
      epoch_steps = 0, epoch_size = 0, main_set = []\<rparr>"

definition unpacked_example :: "(string \<times> nat) data_base" where
  "unpacked_example =
     \<lparr>batch_size = 2, val_size = Some 3, max_steps = None, num_epochs = Some 1,
      packed = False, shuffle = False, group_size = 2, val_steps = None, val_set = None,
      epoch_steps = 0, epoch_size = 0, main_set = []\<rparr>"

text \<open>
  A decoder to evaluate \<^verbatim>\<open>extract_batch\<close> on: two files at 4 samples per second, one
  of half a second and one of a second; a request for \<open>duration\<close> seconds gets the
  first \<open>duration * 4\<close> samples of the file. No offset is drawn and the augmentation
  leaves the signal as it is.
\<close>

definition example_audio :: "string audio" where
  "example_audio =
     \<lparr>get_duration = (\<lambda>file. if file = ''a'' then 1 / 2 else 1),
      random_uniform = (\<lambda>k hi. 0),
      librosa_load = (\<lambda>file sr offset duration.
         (take (nat \<lfloor>duration * 4\<rfloor>)
            (if file = ''a'' then [1 / 2, 1 / 4] else [1, 1 / 2, 1 / 4, 1 / 8]), 4)),
      pp_process = (\<lambda>k data. data)\<rparr>"

section \<open>Properties of the shuffler\<close>

subsection \<open>Trimming to a multiple of the batch size\<close>

lemma mult_div_le_pred:
  fixes n b :: nat
  assumes "0 < n mod b"
  shows "n div b * b \<le> n - 1"
proof -
  have "n div b * b + n mod b = n" by simp
  then show ?thesis using assms by linarith
qed

lemma div_pred_of_mod_pos:
  fixes n b :: nat
  assumes "0 < n mod b"
  shows "(n - 1) div b = n div b"
proof (cases "b = 0")
  case True
  then show ?thesis by simp
next
  case False
  have eq: "b * (n div b) + n mod b = n" by simp
  have lt: "n mod b < b" using False by simp
  have "b * (n div b) \<le> n - 1"
    using eq assms by linarith
  moreover have "n - 1 < b * Suc (n div b)"
  proof -
    have "n < b * (n div b) + b" using eq lt by linarith
    then show ?thesis by simp
  qed
  ultimately show ?thesis by (rule div_nat_eqI)
qed

lemma pop_to_multiple_take:
  "0 < b \<Longrightarrow>
   pop_to_multiple b dataset = take (length dataset div b * b) dataset"
proof (induction b dataset rule: pop_to_multiple.induct)
  case (1 b dataset)
  show ?case
  proof (cases "0 < length dataset mod b")
    case True
    let ?n = "length dataset"
    have eq: "(?n - 1) div b = ?n div b"
      using True by (rule div_pred_of_mod_pos)
    have le: "?n div b * b \<le> ?n - 1"
      using True by (rule mult_div_le_pred)
    have "pop_to_multiple b dataset = pop_to_multiple b (butlast dataset)"
      using True by (subst pop_to_multiple.simps) simp
    also have "\<dots> = take (?n div b * b) (butlast dataset)"
      using "1.IH"[OF True "1.prems"] eq by simp
    also have "\<dots> = take (?n div b * b) dataset"
      using le by (simp add: butlast_conv_take min_def)
    finally show ?thesis .
  next
    case False
    then have "pop_to_multiple b dataset = dataset"
      by (subst pop_to_multiple.simps) simp
    moreover have "b dvd length dataset"
      using False by (simp add: dvd_eq_mod_eq_0)
    then have "length dataset div b * b = length dataset"
      by simp
    ultimately show ?thesis by simp
  qed
qed

lemma scan_mset_length:
  "scan stop ks st = (e, st') \<Longrightarrow>
   mset (fst st') = mset (fst st) \<and> length (fst st') = length (fst st)"
proof (induction ks arbitrary: st)
  case Nil
  then show ?case by simp
next
  case (Cons k ks)
  obtain dataset j ids counts where st: "st = (dataset, j, ids, counts)"
    by (cases st) auto
  show ?case
  proof (cases "length dataset \<le> k")
    case True
    then show ?thesis using Cons.prems unfolding st by simp
  next
    case inb: False
    let ?id = "fst (dataset ! k)"
    show ?thesis
    proof (cases "?id \<in> set ids")
      case False
      then have "scan stop (k # ks) st = scan stop ks st"
        using inb unfolding st by (simp add: Let_def)
      then show ?thesis using Cons.prems Cons.IH by simp
    next
      case mem: True
      show ?thesis
      proof (cases "counts ?id")
        case None
        then show ?thesis using Cons.prems inb mem unfolding st by (simp add: Let_def)
      next
        case (Some c)
        show ?thesis
        proof (cases "0 < c")
          case False
          then have "scan stop (k # ks) st = scan stop ks st"
            using inb mem Some unfolding st by (simp add: Let_def)
          then show ?thesis using Cons.prems Cons.IH by simp
        next
          case pos: True
          show ?thesis
          proof (cases "length dataset \<le> j")
            case True
            then show ?thesis using Cons.prems inb mem Some pos unfolding st
              by (auto simp: Let_def)
          next
            case jb: False
            let ?ds = "(dataset[k := dataset ! j])[j := dataset ! k]"
            have sw: "mset ?ds = mset dataset" "length ?ds = length dataset"
              using inb jb by (simp_all add: mset_swap)
            show ?thesis
            proof (cases "stop \<le> j + 1")
              case True
              then show ?thesis using Cons.prems inb mem Some pos jb sw unfolding st
                by (auto simp: Let_def)
            next
              case False
              then obtain ids' counts' where
                "scan stop (k # ks) st = scan stop ks (?ds, j + 1, ids', counts')"
                using inb mem Some pos jb unfolding st by (simp add: Let_def)
              then have r: "scan stop ks (?ds, j + 1, ids', counts') = (e, st')"
                using Cons.prems by simp
              from Cons.IH[OF r] sw show ?thesis
                unfolding st by simp
            qed
          qed
        qed
      qed
    qed
  qed
qed

lemma window_pass_mset_length:
  assumes "window_pass b g G upper i dataset = (e, dataset')"
  shows "mset dataset' = mset dataset \<and> length dataset' = length dataset"
proof (cases "length (map fst (py_slice dataset i (i + G))) < G")
  case True
  then show ?thesis using assms unfolding window_pass_def Let_def by simp
next
  case False
  let ?ids = "map fst (py_slice dataset i (i + G))"
  let ?counts = "map_of (map (\<lambda>x. (x, int g - 1)) (take G ?ids))"
  obtain e2 d2 r2 where
    sc: "scan (i + b) [i + G..<upper] (dataset, i + G, ?ids, ?counts)
           = (e2, (d2, r2))"
    by (metis surj_pair)
  have "window_pass b g G upper i dataset = (e2, d2)"
    unfolding window_pass_def Let_def using False by (simp only: sc if_False prod.case)
  then have d: "dataset' = d2"
    using assms by simp
  from scan_mset_length[OF sc] d show ?thesis by simp
qed

lemma batches_loop_mset_length:
  "batches_loop b g G upper is dataset = (e, dataset') \<Longrightarrow>
   mset dataset' = mset dataset \<and> length dataset' = length dataset"
proof (induction "is" arbitrary: dataset)
  case Nil
  then show ?case by simp
next
  case (Cons i "is")
  obtain e1 d1 where w: "window_pass b g G upper i dataset = (e1, d1)"
    by (cases "window_pass b g G upper i dataset") auto
  note w1 = window_pass_mset_length[OF w]
  show ?case
  proof (cases e1)
    case None
    then have "batches_loop b g G upper is d1 = (e, dataset')"
      using Cons.prems w by simp
    from Cons.IH[OF this] w1 show ?thesis by simp
  next
    case (Some a)
    then show ?thesis using Cons.prems w w1 by simp
  qed
qed

lemma group_shuffle_entries:
  assumes rnd: "mset (rnd dataset) = mset dataset" and b: "0 < b"
    and g: "group_shuffle rnd dataset b shuf g = (e, dataset')"
  shows "length dataset' = length dataset div b * b"
    and "mset dataset' \<subseteq># mset dataset"
    and "\<not> shuf \<Longrightarrow> mset dataset' = mset (take (length dataset div b * b) dataset)"
    and "mset dataset' =
           mset (take (length dataset div b * b) (if shuf then rnd dataset else dataset))"
proof -
  let ?sh = "if shuf then rnd dataset else dataset"
  let ?tr = "pop_to_multiple b ?sh"
  have len_sh: "length ?sh = length dataset"
    using rnd by (auto dest: mset_eq_length)
  have tr: "?tr = take (length dataset div b * b) ?sh"
    using pop_to_multiple_take[OF b, of ?sh] len_sh by simp
  have "mset dataset' = mset ?tr \<and> length dataset' = length ?tr"
  proof (cases "g = 0 \<or> b mod g \<noteq> 0")
    case True
    then show ?thesis using g b unfolding group_shuffle_def Let_def by (auto split: if_splits)
  next
    case False
    then have "batches_loop b g (b div g) (length ?tr)
                 (range_step (length ?tr) b) ?tr = (e, dataset')"
      using g b unfolding group_shuffle_def Let_def by simp
    then show ?thesis by (rule batches_loop_mset_length)
  qed
  then have m: "mset dataset' = mset ?tr" and l: "length dataset' = length ?tr"
    by simp_all
  show "length dataset' = length dataset div b * b"
    using l tr len_sh by simp
  have "mset ?tr \<subseteq># mset ?sh"
    unfolding tr by (metis append_take_drop_id mset_append mset_subset_eq_add_left)
  then show "mset dataset' \<subseteq># mset dataset"
    using m rnd by (simp split: if_splits)
  show "mset dataset' = mset (take (length dataset div b * b) dataset)"
    if "\<not> shuf"
    using that m tr by simp
  show "mset dataset' =
          mset (take (length dataset div b * b) (if shuf then rnd dataset else dataset))"
    using m tr by simp
qed

lemma scan_skip:
  assumes "k < length dataset"
    and "fst (dataset ! k) \<notin> set ids \<or> (\<exists>c. counts (fst (dataset ! k)) = Some c \<and> c \<le> 0)"
  shows "scan stop (k # ks) (dataset, j, ids, counts) = scan stop ks (dataset, j, ids, counts)"
  using assms by (auto simp: Let_def)

lemma scan_swap:
  assumes "k < length dataset" and "j < length dataset"
    and "fst (dataset ! k) \<in> set ids" and "counts (fst (dataset ! k)) = Some c" and "0 < c"
  shows "scan stop (k # ks) (dataset, j, ids, counts) =
           (if stop \<le> j + 1
            then (None, ((dataset[k := dataset ! j])[j := dataset ! k], j + 1,
                    (if c - 1 \<le> 0 then remove1 (fst (dataset ! k)) ids else ids),
                    counts(fst (dataset ! k) \<mapsto> c - 1)))
            else scan stop ks ((dataset[k := dataset ! j])[j := dataset ! k], j + 1,
                    (if c - 1 \<le> 0 then remove1 (fst (dataset ! k)) ids else ids),
                    counts(fst (dataset ! k) \<mapsto> c - 1)))"
  using assms by (simp add: Let_def)

lemma scan_no_error:
  assumes "\<forall>k\<in>set ks. k < length dataset"
    and "set ids \<subseteq> dom counts"
    and "j < stop \<or> (\<forall>x c. counts x = Some c \<longrightarrow> c \<le> 0)"
    and "stop \<le> length dataset"
  shows "fst (scan stop ks (dataset, j, ids, counts)) = None"
  using assms
proof (induction ks arbitrary: dataset j ids counts)
  case Nil
  then show ?case by simp
next
  case (Cons k ks)
  let ?id = "fst (dataset ! k)"
  have inb: "\<not> length dataset \<le> k" using Cons.prems(1) by simp
  have rest: "\<forall>k\<in>set ks. k < length dataset" using Cons.prems(1) by simp
  note keep = Cons.IH[OF rest Cons.prems(2) Cons.prems(3) Cons.prems(4)]
  show ?case
  proof (cases "?id \<in> set ids")
    case False
    then have "scan stop (k # ks) (dataset, j, ids, counts) = scan stop ks (dataset, j, ids, counts)"
      using inb by (intro scan_skip) auto
    then show ?thesis using keep by (simp only:)
  next
    case mem: True
    then obtain c where c: "counts ?id = Some c"
      using Cons.prems(2) by auto
    show ?thesis
    proof (cases "0 < c")
      case False
      then have "scan stop (k # ks) (dataset, j, ids, counts) = scan stop ks (dataset, j, ids, counts)"
        using inb c by (intro scan_skip) auto
      then show ?thesis using keep by (simp only:)
    next
      case pos: True
      then have jlt: "j < stop" using Cons.prems(3) c by force
      then have jb: "\<not> length dataset \<le> j" using Cons.prems(4) by simp
      let ?ds = "(dataset[k := dataset ! j])[j := dataset ! k]"
      let ?ids = "if c - 1 \<le> 0 then remove1 ?id ids else ids"
      have kb: "k < length dataset" and jb': "j < length dataset"
        using inb jb by simp_all
      note sw = scan_swap[where counts = counts and ids = ids and stop = stop and ks = ks, OF kb jb' mem c pos]
      let ?counts = "counts(?id \<mapsto> c - 1)"
      show ?thesis
      proof (cases "stop \<le> j + 1")
        case True
        then show ?thesis unfolding sw by simp
      next
        case False
        have 1: "\<forall>k\<in>set ks. k < length ?ds" using rest by simp
        have 2: "set ?ids \<subseteq> dom ?counts"
          using Cons.prems(2) by (auto dest: notin_set_remove1)
        have 3: "j + 1 < stop \<or> (\<forall>x c. ?counts x = Some c \<longrightarrow> c \<le> 0)"
          using False by simp
        have 4: "stop \<le> length ?ds" using Cons.prems(4) by simp
        have "scan stop (k # ks) (dataset, j, ids, counts) = scan stop ks (?ds, j + 1, ?ids, ?counts)"
          unfolding sw using False by (simp only: if_False)
        then show ?thesis using Cons.IH[OF 1 2 3 4] by (simp only:)
      qed
    qed
  qed
qed

lemma window_pass_no_error:
  assumes g: "0 < g" and b: "0 < b"
    and w: "i + b \<le> length dataset"
  shows "fst (window_pass b g (b div g)
                (length dataset) i dataset) = None"
proof -
  let ?G = "b div g"
  let ?ids = "map fst (py_slice dataset i (i + ?G))"
  let ?counts = "map_of (map (\<lambda>x. (x, int g - 1)) (take ?G ?ids))"
  have G: "?G \<le> b" by simp
  have "?G \<le> length dataset - i" using w G by linarith
  then have len: "length ?ids = ?G"
    by (simp add: py_slice_def)
  have 1: "\<forall>k\<in>set [i + ?G..<length dataset]. k < length dataset" by simp
  have 2: "set ?ids \<subseteq> dom ?counts"
    using len by (simp add: dom_map_of_conv_image_fst image_image)
  have 3: "i + ?G < i + b \<or> (\<forall>x c. ?counts x = Some c \<longrightarrow> c \<le> 0)"
  proof (cases "g = 1")
    case True
    then show ?thesis by (auto dest: map_of_SomeD)
  next
    case False
    then have "1 < g" using g by simp
    then have "?G < b" using b by simp
    then show ?thesis by simp
  qed
  have sc: "fst (scan (i + b) [i + ?G..<length dataset] (dataset, i + ?G, ?ids, ?counts)) = None"
    using 1 2 3 w by (rule scan_no_error)
  obtain e2 d2 r2 where
    eq: "scan (i + b) [i + ?G..<length dataset] (dataset, i + ?G, ?ids, ?counts) = (e2, (d2, r2))"
    by (metis surj_pair)
  have "window_pass b g ?G (length dataset) i dataset = (e2, d2)"
    unfolding window_pass_def Let_def using len by (simp only: eq less_irrefl if_False prod.case)
  then show ?thesis using sc eq by simp
qed

lemma batches_loop_no_error:
  assumes "0 < g" and "0 < b"
    and "\<forall>i\<in>set is. i + b \<le> length dataset"
  shows "fst (batches_loop b g (b div g)
                (length dataset) is dataset) = None"
  using assms(3)
proof (induction "is" arbitrary: dataset)
  case Nil
  then show ?case by simp
next
  case (Cons i "is")
  let ?G = "b div g"
  obtain e1 d1 where w: "window_pass b g ?G (length dataset) i dataset = (e1, d1)"
    by (metis surj_pair)
  have "i + b \<le> length dataset" using Cons.prems by simp
  from window_pass_no_error[OF assms(1) assms(2) this] w have e1: "e1 = None" by simp
  have l: "length d1 = length dataset" using window_pass_mset_length[OF w] by simp
  have "\<forall>i\<in>set is. i + b \<le> length d1" using Cons.prems l by simp
  from Cons.IH[OF this] show ?case using w e1 l by simp
qed

lemma range_step_windows:
  assumes "0 < step" and "i \<in> set (range_step (q * step) step)"
  shows "i + step \<le> q * step"
proof -
  have "(q * step + step - 1) div step = q"
  proof (rule div_nat_eqI)
    show "step * q \<le> q * step + step - 1" using assms(1) by (simp add: mult.commute)
    show "q * step + step - 1 < step * Suc q" using assms(1) by (simp add: mult.commute)
  qed
  then obtain n where n: "n < q" "i = n * step"
    using assms(2) unfolding range_step_def by auto
  then have "Suc n * step \<le> q * step" by (intro mult_le_mono1) simp
  then show ?thesis using n by simp
qed

lemma length_pop_to_multiple:
  "0 < b \<Longrightarrow>
   length (pop_to_multiple b dataset) = length dataset div b * b"
  by (simp add: pop_to_multiple_take)

lemma group_shuffle_no_error:
  assumes rnd: "mset (rnd dataset) = mset dataset"
    and b: "0 < b" and g: "0 < g" and d: "b mod g = 0"
  shows "fst (group_shuffle rnd dataset b shuf g) = None"
proof -
  let ?sh = "if shuf then rnd dataset else dataset"
  let ?tr = "pop_to_multiple b ?sh"
  have len: "length ?tr = length ?sh div b * b"
    using b by (rule length_pop_to_multiple)
  have "\<forall>i\<in>set (range_step (length ?tr) b). i + b \<le> length ?tr"
    unfolding len using range_step_windows[OF b] by blast
  then have "fst (batches_loop b g (b div g) (length ?tr)
                    (range_step (length ?tr) b) ?tr) = None"
    by (rule batches_loop_no_error[OF g b])
  then show ?thesis
    using b g d unfolding group_shuffle_def Let_def by simp
qed

text \<open>
  Claim C10. For a positive batch size and a \<^verbatim>\<open>random.shuffle\<close> that permutes,
  \<^verbatim>\<open>group_shuffle\<close> leaves a list of length \<open>(n div batch_size) * batch_size\<close>, where
  \<open>n\<close> is the length of the input, whose entries are a sub-multiset of the entries of
  the input; with \<^verbatim>\<open>shuffle\<close> disabled the result is a permutation of the first
  \<open>(n div batch_size) * batch_size\<close> entries of the input. In general the result is a
  permutation of the first \<open>(n div batch_size) * batch_size\<close> entries of the list as
  \<^verbatim>\<open>random.shuffle\<close> left it: only trailing entries are dropped. This holds whether or
  not the call ends in an exception.
\<close>

theorem group_shuffle_preserves_entries:
  assumes "mset (rnd dataset) = mset dataset" and "0 < b"
  shows "length (snd (group_shuffle rnd dataset b shuf g)) = length dataset div b * b \<and>
         mset (snd (group_shuffle rnd dataset b shuf g)) \<subseteq># mset dataset \<and>
         (\<not> shuf \<longrightarrow>
            mset (snd (group_shuffle rnd dataset b shuf g)) =
            mset (take (length dataset div b * b) dataset)) \<and>
         mset (snd (group_shuffle rnd dataset b shuf g)) =
           mset (take (length dataset div b * b) (if shuf then rnd dataset else dataset))"
proof -
  obtain e dataset' where r: "group_shuffle rnd dataset b shuf g = (e, dataset')"
    by (metis surj_pair)
  note f = group_shuffle_entries[OF assms r]
  show ?thesis
    unfolding r snd_conv using f(1) f(2) f(3) f(4) by blast
qed

theorem group_shuffle_preserves_entries_witness:
  "mset (rev [(1::nat, 0::nat), (2, 1), (3, 2), (1, 0), (5, 5)]) =
     mset [(1::nat, 0::nat), (2, 1), (3, 2), (1, 0), (5, 5)] \<and> (0::nat) < 2 \<and>
   length (snd (group_shuffle rev [(1::nat, 0::nat), (2, 1), (3, 2), (1, 0), (5, 5)] 2 False 2))
     = 4 \<and>
   mset (snd (group_shuffle rev [(1::nat, 0::nat), (2, 1), (3, 2), (1, 0), (5, 5)] 2 False 2))
     = mset [(1::nat, 0::nat), (2, 1), (3, 2), (1, 0)]"
  using group_shuffle_preserves_entries
          [of rev "[(1::nat, 0::nat), (2, 1), (3, 2), (1, 0), (5, 5)]" 2 False 2]
  by simp

section \<open>Properties of the partitioner\<close>

lemma get_files_unpacked_Inr:
  assumes "\<not> packed self" and "val_size self = Some v" and "get_files self listing = Inr self'"
  shows "v < length listing \<and> 0 < batch_size self \<and>
         batch_size self \<le> length listing - v div batch_size self * batch_size self \<and>
         batch_size self' = batch_size self \<and>
         val_steps self' = Some (v div batch_size self) \<and>
         val_size self' = Some (v div batch_size self * batch_size self) \<and>
         val_set self' = Some (take (v div batch_size self * batch_size self) listing) \<and>
         epoch_steps self' =
           (length listing - v div batch_size self * batch_size self) div batch_size self \<and>
         epoch_size self' = epoch_steps self' * batch_size self \<and>
         main_set self' =
           take (epoch_size self') (drop (v div batch_size self * batch_size self) listing)"
  using assms unfolding get_files_def Let_def
  by (auto split: if_splits option.splits)

lemma get_files_packed_Inr:
  assumes "packed self" and "val_size self = Some v" and "get_files self listing = Inr self'"
  shows "v div batch_size self < length listing \<and> 0 < batch_size self \<and>
         batch_size self' = batch_size self \<and>
         val_steps self' = Some (v div batch_size self) \<and>
         val_size self' = Some (v div batch_size self * batch_size self) \<and>
         val_set self' = Some (take (v div batch_size self) listing) \<and>
         epoch_steps self' = length listing - v div batch_size self \<and>
         epoch_size self' = epoch_steps self' * batch_size self \<and>
         main_set self' = drop (v div batch_size self) listing"
  using assms unfolding get_files_def get_files_packed_def Let_def
  by (auto split: if_splits option.splits)

text \<open>
  Claim C4 says that after partitioning both \<^verbatim>\<open>len(main_set)\<close> and \<^verbatim>\<open>len(val_set)\<close> are
  multiples of \<^verbatim>\<open>batch_size\<close>, in packed and in unpacked mode. In packed mode the
  entries are whole batches and are counted as such: with five archives,
  \<^verbatim>\<open>val_size = 3\<close> and \<^verbatim>\<open>batch_size = 3\<close> the validation set has one archive and the
  main set four.
\<close>

theorem partition_divisibility_counterexample:
  "get_files packed_example [''a'', ''b'', ''c'', ''d'', ''e''] =
     Inr (packed_example\<lparr>val_steps := Some 1, val_size := Some 3, val_set := Some [''a''],
            epoch_steps := 4, epoch_size := 12, max_steps := Some 4,
            main_set := [''b'', ''c'', ''d'', ''e'']\<rparr>) \<and>
   length [''b'', ''c'', ''d'', ''e''] mod (3::nat) \<noteq> 0 \<and> length [''a''] mod (3::nat) \<noteq> 0"
  by (simp add: get_files_def get_files_packed_def packed_example_def)

text \<open>
  Claim C4, amended. When \<^verbatim>\<open>val_size\<close> is set and partitioning succeeds: in unpacked
  mode \<^verbatim>\<open>len(main_set)\<close> and \<^verbatim>\<open>len(val_set)\<close> are multiples of \<^verbatim>\<open>batch_size\<close>; in
  packed mode \<^verbatim>\<open>len(val_set)\<close> is \<^verbatim>\<open>val_size // batch_size\<close>, \<^verbatim>\<open>len(main_set)\<close> is the
  rest of the listing, and the recorded \<^verbatim>\<open>val_size\<close> and \<^verbatim>\<open>epoch_size\<close> are these
  lengths times \<^verbatim>\<open>batch_size\<close>.
\<close>

theorem partition_divisibility:
  assumes "val_size self = Some v" and "get_files self listing = Inr self'"
  shows "\<exists>vs. val_set self' = Some vs \<and>
           (\<not> packed self \<longrightarrow>
              length (main_set self') mod batch_size self' = 0 \<and>
              length vs mod batch_size self' = 0) \<and>
           (packed self \<longrightarrow>
              length vs = v div batch_size self \<and>
              length (main_set self') = length listing - v div batch_size self \<and>
              val_size self' = Some (length vs * batch_size self') \<and>
              epoch_size self' = length (main_set self') * batch_size self')"
proof (cases "packed self")
  case True
  from get_files_packed_Inr[OF True assms] show ?thesis
    using True by (simp add: min_def)
next
  case False
  let ?b = "batch_size self"
  note r = get_files_unpacked_Inr[OF False assms]
  have 1: "v div ?b * ?b \<le> length listing"
    using r by (meson div_times_less_eq_dividend le_trans less_imp_le_nat)
  have 2: "epoch_size self' \<le> length listing - v div ?b * ?b"
    using r by simp
  have "length (main_set self') = epoch_size self'"
    using r 2 by simp
  moreover have "length (take (v div ?b * ?b) listing) = v div ?b * ?b"
    using 1 by simp
  ultimately show ?thesis using r False by simp
qed

theorem partition_divisibility_witness:
  "val_size packed_example = Some 3 \<and>
   (\<exists>vs. val_set (packed_example\<lparr>val_steps := Some 1, val_size := Some 3, val_set := Some [''a''],
            epoch_steps := 4, epoch_size := 12, max_steps := Some 4,
            main_set := [''b'', ''c'', ''d'', ''e'']\<rparr>) = Some vs \<and> length vs = 1)"
  using partition_divisibility[of packed_example 3 "[''a'', ''b'', ''c'', ''d'', ''e'']"
      "packed_example\<lparr>val_steps := Some 1, val_size := Some 3, val_set := Some [''a''],
            epoch_steps := 4, epoch_size := 12, max_steps := Some 4,
            main_set := [''b'', ''c'', ''d'', ''e'']\<rparr>"]
  by (simp add: get_files_def get_files_packed_def packed_example_def)

lemma get_files_unpacked_assert:
  assumes "\<not> packed self" and "0 < batch_size self" and "val_size self = Some v"
  shows "get_files self listing = Inl AssertionError \<longleftrightarrow>
           length listing \<le> v \<or>
           length listing - v div batch_size self * batch_size self < batch_size self"
  using assms unfolding get_files_def Let_def
  by (auto split: if_splits option.splits)

lemma get_files_packed_assert:
  assumes "packed self" and "0 < batch_size self" and "val_size self = Some v"
  shows "get_files self listing = Inl AssertionError \<longleftrightarrow>
           length listing \<le> v div batch_size self"
  using assms unfolding get_files_def get_files_packed_def Let_def
  by (auto split: if_splits option.splits)

lemma group_shuffle_assert:
  assumes "0 < b" and "0 < g"
  shows "fst (group_shuffle rnd dataset b shuf g) = Some AssertionError \<longleftrightarrow> b mod g \<noteq> 0"
proof (cases "b mod g = 0")
  case True
  have "mset (id dataset) = mset dataset" by simp
  let ?sh = "if shuf then rnd dataset else dataset"
  have "group_shuffle rnd dataset b shuf g = group_shuffle id ?sh b False g"
    unfolding group_shuffle_def by simp
  moreover have "fst (group_shuffle id ?sh b False g) = None"
    by (rule group_shuffle_no_error) (use assms True in simp_all)
  ultimately show ?thesis using True by simp
next
  case False
  then show ?thesis using assms unfolding group_shuffle_def Let_def by simp
qed

text \<open>
  Claim C7 says that in both modes an assertion fires if \<^verbatim>\<open>val_size\<close> is at least the
  length of the data list or \<^verbatim>\<open>batch_size\<close> exceeds the length of the remaining list.
  In packed mode the assertion compares \<^verbatim>\<open>val_size // batch_size\<close> with the length and
  \<^verbatim>\<open>batch_size\<close> is not checked at all: five archives with \<^verbatim>\<open>val_size = 8\<close> and
  \<^verbatim>\<open>batch_size = 7\<close> are partitioned without an exception.
\<close>

theorem configuration_errors_counterexample:
  "length [''a'', ''b'', ''c'', ''d'', ''e''] \<le> (8::nat) \<and>
   length (drop 1 [''a'', ''b'', ''c'', ''d'', ''e'']) < (7::nat) \<and>
   get_files packed_oversized [''a'', ''b'', ''c'', ''d'', ''e''] =
     Inr (packed_oversized\<lparr>val_steps := Some 1, val_size := Some 7, val_set := Some [''a''],
            epoch_steps := 4, epoch_size := 28, max_steps := Some 4,
            main_set := [''b'', ''c'', ''d'', ''e'']\<rparr>)"
  by (simp add: get_files_def get_files_packed_def packed_oversized_def)

text \<open>
  Claim C7, amended. For a positive \<^verbatim>\<open>batch_size\<close> and a set \<^verbatim>\<open>val_size\<close>: in unpacked
  mode \<^verbatim>\<open>get_files\<close> fails by assertion exactly when \<^verbatim>\<open>val_size\<close> is at least the
  length of the data list or \<^verbatim>\<open>batch_size\<close> exceeds the length of the remaining list; in
  packed mode exactly when \<^verbatim>\<open>val_size // batch_size\<close> is at least the length of the
  listing. For positive sizes \<^verbatim>\<open>group_shuffle\<close> fails by assertion exactly when
  \<^verbatim>\<open>batch_size % group_size\<close> is not zero, and raises nothing when it is zero.
\<close>

theorem configuration_errors:
  assumes "0 < batch_size self" and "val_size self = Some v" and "0 < b" and "0 < g"
  shows "(\<not> packed self \<longrightarrow>
            (get_files self listing = Inl AssertionError \<longleftrightarrow>
               length listing \<le> v \<or>
               length listing - v div batch_size self * batch_size self < batch_size self)) \<and>
         (packed self \<longrightarrow>
            (get_files self listing = Inl AssertionError \<longleftrightarrow>
               length listing \<le> v div batch_size self)) \<and>
         (fst (group_shuffle rnd dataset b shuf g) = Some AssertionError \<longleftrightarrow> b mod g \<noteq> 0) \<and>
         (mset (rnd dataset) = mset dataset \<and> b mod g = 0 \<longrightarrow>
            fst (group_shuffle rnd dataset b shuf g) = None)"
proof (intro conjI impI)
  assume "\<not> packed self"
  then show "get_files self listing = Inl AssertionError \<longleftrightarrow>
               length listing \<le> v \<or>
               length listing - v div batch_size self * batch_size self < batch_size self"
    using assms(1,2) by (rule get_files_unpacked_assert)
next
  assume "packed self"
  then show "get_files self listing = Inl AssertionError \<longleftrightarrow>
               length listing \<le> v div batch_size self"
    using assms(1,2) by (rule get_files_packed_assert)
next
  show "fst (group_shuffle rnd dataset b shuf g) = Some AssertionError \<longleftrightarrow> b mod g \<noteq> 0"
    using assms(3,4) by (rule group_shuffle_assert)
next
  assume "mset (rnd dataset) = mset dataset \<and> b mod g = 0"
  then show "fst (group_shuffle rnd dataset b shuf g) = None"
    using assms(3,4) by (intro group_shuffle_no_error) simp_all
qed

theorem configuration_errors_witness:
  "(get_files unpacked_example [(''a'', 0), (''b'', 1), (''c'', 0)] = Inl AssertionError) \<and>
   (get_files packed_oversized [''a''] = Inl AssertionError) \<and>
   fst (group_shuffle rev [(''a'', 0::nat), (''b'', 1), (''c'', 0)] 3 False 2) = Some AssertionError \<and>
   fst (group_shuffle rev [(''a'', 0::nat), (''b'', 1), (''c'', 0)] 4 False 2) = None"
  using configuration_errors[of unpacked_example 3 3 2 "[(''a'', 0), (''b'', 1), (''c'', 0)]" rev
          "[(''a'', 0::nat), (''b'', 1), (''c'', 0)]" False]
    configuration_errors[of packed_oversized 8 4 2 "[''a'']" rev
          "[(''a'', 0::nat), (''b'', 1), (''c'', 0)]" False]
  by (simp add: unpacked_example_def packed_oversized_def)

lemma distinct_submset:
  assumes "mset ys \<subseteq># mset xs" and "distinct xs"
  shows "distinct ys"
proof -
  have "count (mset ys) a = (if a \<in> set ys then 1 else 0)" for a
  proof (cases "a \<in> set ys")
    case True
    then have "0 < count (mset ys) a" by (rule count_mset_gt_0)
    moreover have "count (mset ys) a \<le> count (mset xs) a"
      using assms(1) by (rule mset_subset_eq_count)
    moreover have "count (mset xs) a \<le> 1"
      using assms(2) by (simp add: distinct_count_atmost_1)
    ultimately have "count (mset ys) a = 1" by linarith
    then show ?thesis using True by simp
  next
    case False
    then show ?thesis by simp
  qed
  then show ?thesis by (simp add: distinct_count_atmost_1)
qed

lemma distinct_map_submset:
  assumes "mset ys \<subseteq># mset xs" and "distinct (map f xs)"
  shows "distinct (map f ys)"
proof -
  have "mset (map f ys) \<subseteq># mset (map f xs)"
    using image_mset_subseteq_mono[OF assms(1), of f] by simp
  then show ?thesis using assms(2) by (rule distinct_submset)
qed

lemma get_files_origin_Inr:
  assumes "get_files_origin rnd self raw = Inr data_list"
    and "mset (rnd raw) = mset raw" and "0 < batch_size self"
  shows "length data_list = length raw div batch_size self * batch_size self"
    and "mset data_list \<subseteq># mset raw"
proof -
  have r: "group_shuffle rnd raw (batch_size self) (shuffle self) (group_size self) = (None, data_list)"
    using assms(1) unfolding get_files_origin_def
    by (auto split: prod.splits option.splits)
  show "length data_list = length raw div batch_size self * batch_size self"
    using group_shuffle_entries(1)[OF assms(2,3) r] .
  show "mset data_list \<subseteq># mset raw"
    using group_shuffle_entries(2)[OF assms(2,3) r] .
qed

lemma partition_unpacked_split:
  assumes np: "\<not> packed self" and v: "val_size self = Some v"
    and g: "get_files self data_list = Inr self'"
    and d: "batch_size self dvd length data_list"
  shows "val_set self' = Some (take (v div batch_size self * batch_size self) data_list) \<and>
         main_set self' = drop (v div batch_size self * batch_size self) data_list"
proof -
  let ?b = "batch_size self"
  let ?m = "v div ?b * ?b"
  note r = get_files_unpacked_Inr[OF np v g]
  have "?m \<le> length data_list"
    using r by (meson div_times_less_eq_dividend le_trans less_imp_le_nat)
  have "?b dvd length data_list - ?m"
    using d by (simp add: dvd_diff_nat)
  then have "(length data_list - ?m) div ?b * ?b = length data_list - ?m"
    by simp
  then have "epoch_size self' = length (drop ?m data_list)"
    using r by simp
  then have "main_set self' = drop ?m data_list"
    using r by simp
  then show ?thesis using r by simp
qed

lemma get_files_origin_kept:
  assumes "get_files_origin rnd self raw = Inr data_list"
    and "mset (rnd raw) = mset raw" and "0 < batch_size self"
  shows "mset data_list =
           mset (take (length raw div batch_size self * batch_size self)
                   (if shuffle self then rnd raw else raw))"
proof -
  have r: "group_shuffle rnd raw (batch_size self) (shuffle self) (group_size self) = (None, data_list)"
    using assms(1) unfolding get_files_origin_def
    by (auto split: prod.splits option.splits)
  show ?thesis
    using group_shuffle_entries(4)[OF assms(2,3) r] .
qed

text \<open>
  Claim C3 says that the references of \<^verbatim>\<open>val_set\<close> and \<^verbatim>\<open>main_set\<close> together are
  the references of the list that discovery produced. In unpacked mode
  \<^verbatim>\<open>get_files_origin\<close> ends with \<^verbatim>\<open>group_shuffle\<close>, which pops the list down to a
  multiple of \<^verbatim>\<open>batch_size\<close> before \<^verbatim>\<open>get_files\<close> partitions it: of five discovered
  files with \<^verbatim>\<open>batch_size = 2\<close> the fifth is in neither set.
\<close>

theorem partition_complete_counterexample:
  "get_files_origin rev unpacked_example
     [(''a'', 0), (''b'', 1), (''c'', 0), (''d'', 1), (''e'', 0)]
     = Inr [(''a'', 0), (''b'', 1), (''c'', 0), (''d'', 1)] \<and>
   get_files unpacked_example [(''a'', 0), (''b'', 1), (''c'', 0), (''d'', 1)] =
     Inr (unpacked_example\<lparr>val_steps := Some 1, val_size := Some 2,
            val_set := Some [(''a'', 0), (''b'', 1)],
            epoch_steps := 1, epoch_size := 2, max_steps := Some 1,
            main_set := [(''c'', 0), (''d'', 1)]\<rparr>) \<and>
   ''e'' \<in> fst ` set [(''a'', 0::nat), (''b'', 1), (''c'', 0), (''d'', 1), (''e'', 0)] \<and>
   ''e'' \<notin> fst ` set [(''a'', 0::nat), (''b'', 1)] \<union> fst ` set [(''c'', 0::nat), (''d'', 1)]"
proof -
  have o: "get_files_origin rev unpacked_example
             [(''a'', 0), (''b'', 1), (''c'', 0), (''d'', 1), (''e'', 0)]
           = Inr [(''a'', 0), (''b'', 1), (''c'', 0), (''d'', 1)]"
    by code_simp
  have u: "get_files unpacked_example [(''a'', 0), (''b'', 1), (''c'', 0), (''d'', 1)] =
     Inr (unpacked_example\<lparr>val_steps := Some 1, val_size := Some 2,
            val_set := Some [(''a'', 0), (''b'', 1)],
            epoch_steps := 1, epoch_size := 2, max_steps := Some 1,
            main_set := [(''c'', 0), (''d'', 1)]\<rparr>)"
    by (simp add: get_files_def unpacked_example_def)
  show ?thesis
    unfolding o u by simp
qed

text \<open>
  Claim C3, amended. When \<^verbatim>\<open>val_size\<close> is set and partitioning succeeds, \<^verbatim>\<open>val_set\<close>
  followed by \<^verbatim>\<open>main_set\<close> is the list that \<^verbatim>\<open>get_files\<close> partitions: the directory
  listing in packed mode, the list returned by \<^verbatim>\<open>get_files_origin\<close> in unpacked mode.
  In unpacked mode that list is a rearrangement of the first
  \<^verbatim>\<open>(n // batch_size) * batch_size\<close> entries of the discovered list of length \<open>n\<close>, taken
  after \<^verbatim>\<open>random.shuffle\<close> when \<^verbatim>\<open>shuffle\<close> is set: the references of the two sets
  together are the references of these entries, and the last \<^verbatim>\<open>n % batch_size\<close> entries
  are in neither set. The two sets of references are disjoint when the discovered
  references are distinct.
\<close>

theorem partition_complete:
  fixes self :: "('a \<times> 'b) data_base" and pself :: "'p data_base"
  shows "(packed pself \<and> val_size pself = Some pv \<and> get_files pself plisting = Inr pself' \<longrightarrow>
            (\<exists>vs. val_set pself' = Some vs \<and> vs @ main_set pself' = plisting \<and>
                  set vs \<union> set (main_set pself') = set plisting \<and>
                  (distinct plisting \<longrightarrow> set vs \<inter> set (main_set pself') = {}))) \<and>
         (\<not> packed self \<and> val_size self = Some v \<and> mset (rnd raw) = mset raw \<and>
          get_files_origin rnd self raw = Inr data_list \<and>
          get_files self data_list = Inr self' \<longrightarrow>
            (\<exists>vs. val_set self' = Some vs \<and> vs @ main_set self' = data_list \<and>
                  fst ` set vs \<union> fst ` set (main_set self') = fst ` set data_list \<and>
                  (distinct (map fst raw) \<longrightarrow>
                     fst ` set vs \<inter> fst ` set (main_set self') = {}) \<and>
                  mset (vs @ main_set self') =
                    mset (take (length raw div batch_size self * batch_size self)
                            (if shuffle self then rnd raw else raw)) \<and>
                  fst ` set vs \<union> fst ` set (main_set self') =
                    fst ` set (take (length raw div batch_size self * batch_size self)
                                 (if shuffle self then rnd raw else raw)) \<and>
                  length vs + length (main_set self') =
                    length raw - length raw mod batch_size self))"
proof (intro conjI impI)
  assume a: "packed pself \<and> val_size pself = Some pv \<and> get_files pself plisting = Inr pself'"
  let ?n = "pv div batch_size pself"
  have r: "val_set pself' = Some (take ?n plisting)" "main_set pself' = drop ?n plisting"
    using get_files_packed_Inr[of pself pv plisting pself'] a by simp_all
  have u: "set (take ?n plisting) \<union> set (drop ?n plisting) = set plisting"
    by (metis append_take_drop_id set_append)
  have i: "set (take ?n plisting) \<inter> set (drop ?n plisting) = {}" if "distinct plisting"
    using that by (metis append_take_drop_id distinct_append)
  show "\<exists>vs. val_set pself' = Some vs \<and> vs @ main_set pself' = plisting \<and>
             set vs \<union> set (main_set pself') = set plisting \<and>
             (distinct plisting \<longrightarrow> set vs \<inter> set (main_set pself') = {})"
    using r u i by simp
next
  assume a: "\<not> packed self \<and> val_size self = Some v \<and> mset (rnd raw) = mset raw \<and>
          get_files_origin rnd self raw = Inr data_list \<and>
          get_files self data_list = Inr self'"
  let ?b = "batch_size self"
  let ?m = "v div ?b * ?b"
  let ?kept = "take (length raw div ?b * ?b) (if shuffle self then rnd raw else raw)"
  have b: "0 < ?b"
    using get_files_unpacked_Inr[of self v data_list self'] a by simp
  have o: "length data_list = length raw div ?b * ?b" "mset data_list \<subseteq># mset raw"
    using get_files_origin_Inr[of rnd self raw data_list] a b by simp_all
  have kept: "mset data_list = mset ?kept"
    using get_files_origin_kept[of rnd self raw data_list] a b by simp
  have "?b dvd length data_list"
    using o(1) by simp
  then have r: "val_set self' = Some (take ?m data_list)" "main_set self' = drop ?m data_list"
    using partition_unpacked_split[of self v data_list self'] a by simp_all
  have u: "fst ` set (take ?m data_list) \<union> fst ` set (drop ?m data_list) = fst ` set data_list"
    by (metis append_take_drop_id image_Un set_append)
  have i: "fst ` set (take ?m data_list) \<inter> fst ` set (drop ?m data_list) = {}"
    if "distinct (map fst raw)"
  proof -
    have "distinct (map fst data_list)"
      using o(2) that by (rule distinct_map_submset)
    then have "distinct (map fst (take ?m data_list) @ map fst (drop ?m data_list))"
      by (simp flip: map_append)
    then show ?thesis by (simp only: distinct_append set_map)
  qed
  have "set data_list = set ?kept"
    using kept by (rule mset_eq_setD)
  then have s: "fst ` set data_list = fst ` set ?kept"
    by (rule arg_cong)
  have "length raw div ?b * ?b = length raw - length raw mod ?b"
    by (simp add: minus_mod_eq_div_mult)
  then have l: "length (take ?m data_list) + length (drop ?m data_list) =
                  length raw - length raw mod ?b"
    using o(1) by simp
  have c: "take ?m data_list @ drop ?m data_list = data_list"
    by (rule append_take_drop_id)
  show "\<exists>vs. val_set self' = Some vs \<and> vs @ main_set self' = data_list \<and>
             fst ` set vs \<union> fst ` set (main_set self') = fst ` set data_list \<and>
             (distinct (map fst raw) \<longrightarrow> fst ` set vs \<inter> fst ` set (main_set self') = {}) \<and>
             mset (vs @ main_set self') = mset ?kept \<and>
             fst ` set vs \<union> fst ` set (main_set self') = fst ` set ?kept \<and>
             length vs + length (main_set self') = length raw - length raw mod ?b"
  proof (intro exI conjI impI)
    show "val_set self' = Some (take ?m data_list)" by (rule r(1))
    show "take ?m data_list @ main_set self' = data_list" unfolding r(2) by (rule c)
    show "fst ` set (take ?m data_list) \<union> fst ` set (main_set self') = fst ` set data_list"
      unfolding r(2) by (rule u)
    show "fst ` set (take ?m data_list) \<inter> fst ` set (main_set self') = {}"
      if "distinct (map fst raw)"
      unfolding r(2) using that by (rule i)
    show "mset (take ?m data_list @ main_set self') = mset ?kept"
      unfolding r(2) c by (rule kept)
    show "fst ` set (take ?m data_list) \<union> fst ` set (main_set self') = fst ` set ?kept"
      unfolding r(2) u by (rule s)
    show "length (take ?m data_list) + length (main_set self') = length raw - length raw mod ?b"
      unfolding r(2) by (rule l)
  qed
qed

theorem partition_complete_witness:
  "(\<exists>vs. Some [''a''] = Some vs \<and> vs @ [''b'', ''c'', ''d'', ''e''] = [''a'', ''b'', ''c'', ''d'', ''e'']) \<and>
   (\<exists>vs. Some [(''a'', 0::nat), (''b'', 1)] = Some vs \<and>
      vs @ [(''c'', 0), (''d'', 1)] = [(''a'', 0), (''b'', 1), (''c'', 0), (''d'', 1)] \<and>
      fst ` set vs \<inter> fst ` set [(''c'', 0::nat), (''d'', 1)] = {} \<and>
      fst ` set vs \<union> fst ` set [(''c'', 0::nat), (''d'', 1)] =
        fst ` set (take 4 [(''a'', 0::nat), (''b'', 1), (''c'', 0), (''d'', 1), (''e'', 0)]) \<and>
      length vs + length [(''c'', 0::nat), (''d'', 1)] = 5 - 1)"
proof -
  have p: "get_files packed_example [''a'', ''b'', ''c'', ''d'', ''e''] =
     Inr (packed_example\<lparr>val_steps := Some 1, val_size := Some 3, val_set := Some [''a''],
            epoch_steps := 4, epoch_size := 12, max_steps := Some 4,
            main_set := [''b'', ''c'', ''d'', ''e'']\<rparr>)"
    by (simp add: get_files_def get_files_packed_def packed_example_def)
  have o: "get_files_origin rev unpacked_example
             [(''a'', 0), (''b'', 1), (''c'', 0), (''d'', 1), (''e'', 0)]
           = Inr [(''a'', 0), (''b'', 1), (''c'', 0), (''d'', 1)]"
    by code_simp
  have u: "get_files unpacked_example [(''a'', 0), (''b'', 1), (''c'', 0), (''d'', 1)] =
     Inr (unpacked_example\<lparr>val_steps := Some 1, val_size := Some 2,
            val_set := Some [(''a'', 0), (''b'', 1)],
            epoch_steps := 1, epoch_size := 2, max_steps := Some 1,
            main_set := [(''c'', 0), (''d'', 1)]\<rparr>)"
    by (simp add: get_files_def unpacked_example_def)
  show ?thesis
    using partition_complete
      [of packed_example 3 "[''a'', ''b'', ''c'', ''d'', ''e'']"
          "packed_example\<lparr>val_steps := Some 1, val_size := Some 3, val_set := Some [''a''],
            epoch_steps := 4, epoch_size := 12, max_steps := Some 4,
            main_set := [''b'', ''c'', ''d'', ''e'']\<rparr>"
          unpacked_example 3 rev "[(''a'', 0), (''b'', 1), (''c'', 0), (''d'', 1), (''e'', 0)]"
          "[(''a'', 0), (''b'', 1), (''c'', 0), (''d'', 1)]"
          "unpacked_example\<lparr>val_steps := Some 1, val_size := Some 2,
            val_set := Some [(''a'', 0), (''b'', 1)],
            epoch_steps := 1, epoch_size := 2, max_steps := Some 1,
            main_set := [(''c'', 0), (''d'', 1)]\<rparr>"]
      p o u
    by (simp add: packed_example_def unpacked_example_def)
qed

section \<open>The range of the scan\<close>

lemma scan_append_skip:
  assumes "\<forall>k\<in>set ks1. k < length dataset \<and> fst (dataset ! k) \<notin> set ids"
  shows "scan stop (ks1 @ ks2) (dataset, j, ids, counts) = scan stop ks2 (dataset, j, ids, counts)"
  using assms
proof (induction ks1)
  case Nil
  then show ?case by simp
next
  case (Cons k ks1)
  have "scan stop (k # (ks1 @ ks2)) (dataset, j, ids, counts) =
        scan stop (ks1 @ ks2) (dataset, j, ids, counts)"
    using Cons.prems by (intro scan_skip) auto
  then show ?case using Cons by simp
qed

lemma scan_take:
  assumes "sorted_wrt (<) ks" and "\<forall>k\<in>set ks. j \<le> k"
  shows "take j (fst (snd (scan stop ks (dataset, j, ids, counts)))) = take j dataset"
  using assms
proof (induction ks arbitrary: dataset j ids counts)
  case Nil
  then show ?case by simp
next
  case (Cons k ks)
  have s: "sorted_wrt (<) ks" and jk: "j \<le> k" and above: "\<forall>k'\<in>set ks. k < k'"
    using Cons.prems by auto
  have keep: "take j (fst (snd (scan stop ks (dataset, j, ids, counts)))) = take j dataset"
    using Cons.prems by (intro Cons.IH) auto
  let ?id = "fst (dataset ! k)"
  show ?case
  proof (cases "k < length dataset \<and> j < length dataset \<and> ?id \<in> set ids \<and>
                (\<exists>c. counts ?id = Some c \<and> 0 < c)")
    case True
    then obtain c where c: "counts ?id = Some c" "0 < c" by blast
    let ?ds = "(dataset[k := dataset ! j])[j := dataset ! k]"
    let ?ids = "if c - 1 \<le> 0 then remove1 ?id ids else ids"
    let ?counts = "counts(?id \<mapsto> c - 1)"
    have sw: "scan stop (k # ks) (dataset, j, ids, counts) =
               (if stop \<le> j + 1 then (None, (?ds, j + 1, ?ids, ?counts))
                else scan stop ks (?ds, j + 1, ?ids, ?counts))"
      using True c by (intro scan_swap[where counts = counts]) auto
    have t: "take j ?ds = take j dataset"
      using jk by simp
    show ?thesis
    proof (cases "stop \<le> j + 1")
      case True
      then show ?thesis unfolding sw using t by simp
    next
      case False
      have "\<forall>k'\<in>set ks. j + 1 \<le> k'" using above jk by auto
      with s have "take (j + 1) (fst (snd (scan stop ks (?ds, j + 1, ?ids, ?counts))))
                     = take (j + 1) ?ds"
        by (rule Cons.IH)
      then have "take j (take (j + 1) (fst (snd (scan stop ks (?ds, j + 1, ?ids, ?counts)))))
                   = take j (take (j + 1) ?ds)"
        by simp
      then have "take j (fst (snd (scan stop ks (?ds, j + 1, ?ids, ?counts)))) = take j ?ds"
        by (simp add: min_def)
      then show ?thesis unfolding sw using False t by simp
    qed
  next
    case False
    then show ?thesis using keep
      by (auto simp: Let_def split: option.splits)
  qed
qed

lemma window_pass_unfold:
  assumes "G \<le> length dataset - i"
  shows "window_pass b g G upper i dataset =
           (fst (scan (i + b) [i + G..<upper]
                   (dataset, i + G, map fst (py_slice dataset i (i + G)),
                    map_of (map (\<lambda>x. (x, int g - 1)) (map fst (py_slice dataset i (i + G)))))),
            fst (snd (scan (i + b) [i + G..<upper]
                   (dataset, i + G, map fst (py_slice dataset i (i + G)),
                    map_of (map (\<lambda>x. (x, int g - 1)) (map fst (py_slice dataset i (i + G))))))))"
proof -
  have "length (map fst (py_slice dataset i (i + G))) = G"
    using assms by (simp add: py_slice_def)
  then show ?thesis
    unfolding window_pass_def Let_def
    by (simp add: case_prod_unfold)
qed

lemma window_pass_take:
  "take (i + G) (snd (window_pass b g G upper i dataset)) = take (i + G) dataset"
proof (cases "G \<le> length dataset - i")
  case True
  have "sorted_wrt (<) [i + G..<upper]" by simp
  moreover have "\<forall>k\<in>set [i + G..<upper]. i + G \<le> k" by simp
  ultimately show ?thesis
    unfolding window_pass_unfold[OF True] snd_conv by (rule scan_take)
next
  case False
  then have "length (map fst (py_slice dataset i (i + G))) < G"
    by (simp add: py_slice_def)
  then show ?thesis unfolding window_pass_def Let_def by simp
qed

lemma map_of_const:
  "x \<in> set xs \<Longrightarrow> map_of (map (\<lambda>x. (x, c)) xs) x = Some c"
  by (induction xs) auto

lemma window_pass_swaps_first_match:
  assumes g: "1 < g" and ik: "i + G \<le> k" and k: "k < length dataset"
    and m: "fst (dataset ! k) \<in> fst ` set (py_slice dataset i (i + G))"
    and first: "\<forall>m. i + G \<le> m \<and> m < k \<longrightarrow>
                  fst (dataset ! m) \<notin> fst ` set (py_slice dataset i (i + G))"
  shows "snd (window_pass b g G (length dataset) i dataset) ! (i + G) = dataset ! k"
proof -
  let ?j = "i + G"
  let ?ids = "map fst (py_slice dataset i ?j)"
  let ?counts = "map_of (map (\<lambda>x. (x, int g - 1)) ?ids)"
  let ?id = "fst (dataset ! k)"
  let ?ds = "(dataset[k := dataset ! ?j])[?j := dataset ! k]"
  have G: "G \<le> length dataset - i" using ik k by linarith
  have j: "?j < length dataset" using ik k by linarith
  have mem: "?id \<in> set ?ids" using m by simp
  have c: "?counts ?id = Some (int g - 1)" using mem by (rule map_of_const)
  have pos: "0 < int g - 1" using g by simp
  have split: "[?j..<length dataset] = [?j..<k] @ k # [Suc k..<length dataset]"
    using ik k by (metis le_Suc_ex less_imp_le_nat upt_add_eq_append upt_conv_Cons)
  have skip: "\<forall>m\<in>set [?j..<k]. m < length dataset \<and> fst (dataset ! m) \<notin> set ?ids"
    using first k by simp
  define rest where "rest = [Suc k..<length dataset]"
  define ids' where "ids' = (if int g - 1 - 1 \<le> 0 then remove1 ?id ?ids else ?ids)"
  define counts' where "counts' = ?counts(?id \<mapsto> int g - 1 - 1)"
  have sc: "scan (i + b) [?j..<length dataset] (dataset, ?j, ?ids, ?counts) =
              (if i + b \<le> ?j + 1 then (None, (?ds, ?j + 1, ids', counts'))
               else scan (i + b) rest (?ds, ?j + 1, ids', counts'))"
    unfolding split scan_append_skip[OF skip] rest_def ids'_def counts'_def
    using k j mem c pos by (rule scan_swap)
  have "fst (snd (scan (i + b) [?j..<length dataset] (dataset, ?j, ?ids, ?counts))) ! ?j = ?ds ! ?j"
  proof (cases "i + b \<le> ?j + 1")
    case True
    then show ?thesis unfolding sc by simp
  next
    case False
    have "sorted_wrt (<) rest" unfolding rest_def by simp
    moreover have "\<forall>k'\<in>set rest. ?j + 1 \<le> k'" unfolding rest_def using ik by simp
    ultimately have "take (?j + 1) (fst (snd (scan (i + b) rest (?ds, ?j + 1, ids', counts'))))
                       = take (?j + 1) ?ds"
      by (rule scan_take)
    then have "take (?j + 1) (fst (snd (scan (i + b) rest (?ds, ?j + 1, ids', counts')))) ! ?j
                 = take (?j + 1) ?ds ! ?j"
      by simp
    then show ?thesis unfolding sc using False by simp
  qed
  moreover have "?ds ! ?j = dataset ! k" using j by simp
  ultimately show ?thesis
    unfolding window_pass_unfold[OF G] by simp
qed

text \<open>
  The scan of a window is the declarative description \<open>swap_in\<close> of \<open>taken\<close>: the
  entries it takes are found by going through the positions from \<open>j\<close> to the end of
  the list, and the entry taken is the one the list had at that position before the
  scan, because a swap only touches a position already visited and a position before
  the ones still to visit.
\<close>

lemma taken_no_room: "taken counts 0 xs = []"
  by (cases xs) auto

lemma length_taken: "length (taken counts room xs) \<le> room"
proof (induction xs arbitrary: counts room)
  case Nil
  then show ?case by simp
next
  case (Cons x xs)
  obtain k key where x: "x = (k, key)" by (cases x) auto
  show ?case
  proof (cases "room = 0")
    case True
    then show ?thesis by (simp add: taken_no_room)
  next
    case False
    have 1: "length (taken counts room xs) \<le> room" by (rule Cons.IH)
    have 2: "Suc (length (taken cs (room - 1) xs)) \<le> room" for cs
      using Cons.IH[of cs "room - 1"] False by simp
    show ?thesis
      unfolding x using False 1 2 by (simp split: option.splits)
  qed
qed

lemma scan_taken:
  assumes "sorted_wrt (<) ks" and "\<forall>k\<in>set ks. j \<le> k \<and> k < length dataset"
    and "\<forall>x c. counts x = Some c \<and> 0 < c \<longrightarrow> x \<in> set ids"
    and "set ids \<subseteq> dom counts"
    and "j < stop \<or> (\<forall>x c. counts x = Some c \<longrightarrow> c \<le> 0)"
    and "stop \<le> length dataset"
  shows "fst (snd (scan stop ks (dataset, j, ids, counts))) =
           swap_in j (taken counts (stop - j) (map (\<lambda>k. (k, fst (dataset ! k))) ks)) dataset"
  using assms
proof (induction ks arbitrary: dataset j ids counts)
  case Nil
  then show ?case by simp
next
  case (Cons k ks)
  let ?key = "fst (dataset ! k)"
  let ?keyed = "\<lambda>ds. map (\<lambda>k. (k, fst (ds ! k))) ks"
  have s: "sorted_wrt (<) ks" and above: "\<forall>k'\<in>set ks. k < k'"
    and jk: "j \<le> k" and kb: "k < length dataset"
    and rest: "\<forall>k'\<in>set ks. j \<le> k' \<and> k' < length dataset"
    using Cons.prems(1,2) by auto
  note keep = Cons.IH[OF s rest Cons.prems(3) Cons.prems(4) Cons.prems(5) Cons.prems(6)]
  show ?case
  proof (cases "\<exists>c. counts ?key = Some c \<and> 0 < c")
    case False
    then have sk: "?key \<notin> set ids \<or> (\<exists>c. counts ?key = Some c \<and> c \<le> 0)"
      using Cons.prems(4) by (cases "counts ?key") (auto simp: not_less)
    have l: "scan stop (k # ks) (dataset, j, ids, counts) = scan stop ks (dataset, j, ids, counts)"
      using kb sk by (rule scan_skip)
    have r: "taken counts (stop - j) ((k, ?key) # ?keyed dataset) =
             taken counts (stop - j) (?keyed dataset)"
      using False by (cases "stop - j = 0") (auto simp: taken_no_room split: option.splits)
    show ?thesis
      unfolding l list.map r by (rule keep)
  next
    case True
    then obtain c where c: "counts ?key = Some c" and pos: "0 < c" by blast
    have mem: "?key \<in> set ids" using Cons.prems(3) c pos by blast
    have jlt: "j < stop" using Cons.prems(5) c pos by force
    then have jb: "j < length dataset" using Cons.prems(6) by simp
    let ?ds = "(dataset[k := dataset ! j])[j := dataset ! k]"
    let ?ids = "if c - 1 \<le> 0 then remove1 ?key ids else ids"
    let ?counts = "counts(?key \<mapsto> c - 1)"
    note sw = scan_swap[where counts = counts and ids = ids and stop = stop and ks = ks,
                OF kb jb mem c pos]
    have r: "taken counts (stop - j) ((k, ?key) # ?keyed dataset) =
             k # taken ?counts (stop - j - 1) (?keyed dataset)"
      using jlt c pos by simp
    have keys: "?keyed ?ds = ?keyed dataset"
    proof (rule map_cong[OF refl])
      fix k' assume "k' \<in> set ks"
      then have "k < k'" using above by simp
      then have "k' \<noteq> k" "k' \<noteq> j" using jk by simp_all
      then show "(k', fst (?ds ! k')) = (k', fst (dataset ! k'))" by simp
    qed
    show ?thesis
    proof (cases "stop \<le> j + 1")
      case True
      then have "stop - j - 1 = 0" by simp
      then show ?thesis
        unfolding sw list.map r using True by (simp add: taken_no_room)
    next
      case False
      have 1: "\<forall>k'\<in>set ks. j + 1 \<le> k' \<and> k' < length ?ds"
        using above jk rest by auto
      have 2: "\<forall>x c'. ?counts x = Some c' \<and> 0 < c' \<longrightarrow> x \<in> set ?ids"
      proof (intro allI impI)
        fix x c' assume a: "?counts x = Some c' \<and> 0 < c'"
        show "x \<in> set ?ids"
        proof (cases "x = ?key")
          case True
          then have "c' = c - 1" using a by simp
          then have "\<not> c - 1 \<le> 0" using a by simp
          then show ?thesis using True mem by simp
        next
          case False
          then have "counts x = Some c'" using a by simp
          then have "x \<in> set ids" using Cons.prems(3) a by blast
          then show ?thesis using False by simp
        qed
      qed
      have 3: "set ?ids \<subseteq> dom ?counts"
        using Cons.prems(4) by (auto dest: notin_set_remove1)
      have 4: "j + 1 < stop \<or> (\<forall>x c. ?counts x = Some c \<longrightarrow> c \<le> 0)"
        using False by simp
      have 5: "stop \<le> length ?ds" using Cons.prems(6) by simp
      have "fst (snd (scan stop ks (?ds, j + 1, ?ids, ?counts))) =
              swap_in (j + 1) (taken ?counts (stop - (j + 1)) (?keyed ?ds)) ?ds"
        using s 1 2 3 4 5 by (rule Cons.IH)
      then show ?thesis
        unfolding sw list.map r keys using False by simp
    qed
  qed
qed

lemma window_pass_taken:
  assumes g: "0 < g" and w: "i + b \<le> length dataset"
  shows "snd (window_pass b g (b div g) (length dataset) i dataset) =
           swap_in (i + b div g)
             (taken (map_of (map (\<lambda>x. (x, int g - 1))
                               (map fst (py_slice dataset i (i + b div g)))))
                    (b - b div g)
                    (map (\<lambda>k. (k, fst (dataset ! k))) [i + b div g..<length dataset]))
             dataset"
proof -
  let ?G = "b div g"
  let ?ids = "map fst (py_slice dataset i (i + ?G))"
  let ?counts = "map_of (map (\<lambda>x. (x, int g - 1)) ?ids)"
  have Gb: "?G \<le> b" by simp
  then have G: "?G \<le> length dataset - i" using w by linarith
  have 1: "sorted_wrt (<) [i + ?G..<length dataset]" by simp
  have 2: "\<forall>k\<in>set [i + ?G..<length dataset]. i + ?G \<le> k \<and> k < length dataset" by simp
  have 3: "\<forall>x c. ?counts x = Some c \<and> 0 < c \<longrightarrow> x \<in> set ?ids"
    by (auto dest!: map_of_SomeD)
  have 4: "set ?ids \<subseteq> dom ?counts"
    by (simp add: dom_map_of_conv_image_fst image_image)
  have 5: "i + ?G < i + b \<or> (\<forall>x c. ?counts x = Some c \<longrightarrow> c \<le> 0)"
  proof (cases "g = 1 \<or> b = 0")
    case True
    then show ?thesis
    proof
      assume "g = 1"
      then show ?thesis by (auto dest: map_of_SomeD)
    next
      assume "b = 0"
      then show ?thesis by (simp add: py_slice_def)
    qed
  next
    case False
    then have "1 < g" and "0 < b" using g by simp_all
    then have "?G < b" by simp
    then show ?thesis by simp
  qed
  have "fst (snd (scan (i + b) [i + ?G..<length dataset] (dataset, i + ?G, ?ids, ?counts))) =
          swap_in (i + ?G)
            (taken ?counts (i + b - (i + ?G))
               (map (\<lambda>k. (k, fst (dataset ! k))) [i + ?G..<length dataset])) dataset"
    using 1 2 3 4 5 w by (rule scan_taken)
  moreover have "i + b - (i + ?G) = b - ?G" by simp
  ultimately show ?thesis
    unfolding window_pass_unfold[OF G] by simp
qed

text \<open>
  Claim C2 says that the scan of a window visits only positions inside the window, so
  that an entry beyond the window is never swapped into it. The scan runs over
  \<^verbatim>\<open>range(j, upper)\<close> and \<^verbatim>\<open>upper\<close> is the length of the whole list: with
  \<^verbatim>\<open>batch_size = 2\<close> and \<^verbatim>\<open>group_size = 2\<close> the entry at position 3, outside the first
  window, ends at position 1, inside it.
\<close>

theorem scan_bound_counterexample:
  "group_shuffle rev [(''a'', 0::nat), (''b'', 1), (''c'', 2), (''a'', 3)] 2 False 2
     = (None, [(''a'', 0), (''a'', 3), (''c'', 2), (''b'', 1)]) \<and>
   (''a'', 3) \<notin> set (py_slice [(''a'', 0::nat), (''b'', 1), (''c'', 2), (''a'', 3)] 0 2) \<and>
   (''a'', 3) \<in> set (py_slice [(''a'', 0::nat), (''a'', 3), (''c'', 2), (''b'', 1)] 0 2)"
  by code_simp

text \<open>
  Claim C2, amended. The scan of the window that starts at \<open>i\<close> is not bounded to the
  window. It leaves the positions before \<open>i + G\<close> as they are. When \<^verbatim>\<open>group_size\<close> is
  at least 2, the first entry at or after \<open>i + G\<close>, anywhere in the list, whose first
  component is that of one of the \<open>G\<close> representatives is swapped into position
  \<open>i + G\<close> of the window. For a positive \<^verbatim>\<open>group_size\<close>, \<open>G = batch_size div group_size\<close>
  and a window inside the list, the whole result of the scan is determined: the scan
  goes through the positions \<open>i + G\<close>, \<open>i + G + 1\<close>, ... up to the last position of the
  whole list, in this order; each representative's first component starts with the
  counter \<^verbatim>\<open>group_size - 1\<close>; an entry is taken when the counter of its first component
  is still positive, and the counter is then lowered by one; the entries taken are
  swapped, in the order in which they are met, into the positions \<open>i + G\<close>,
  \<open>i + G + 1\<close>, ...; and nothing more is taken once \<open>batch_size - G\<close> entries have been
  taken, which is when the window is full.
\<close>

theorem scan_runs_to_end_of_list:
  "take (i + G) (snd (window_pass b g G (length dataset) i dataset)) = take (i + G) dataset \<and>
   (1 < g \<and> i + G \<le> k \<and> k < length dataset \<and>
    fst (dataset ! k) \<in> fst ` set (py_slice dataset i (i + G)) \<and>
    (\<forall>m. i + G \<le> m \<and> m < k \<longrightarrow>
       fst (dataset ! m) \<notin> fst ` set (py_slice dataset i (i + G))) \<longrightarrow>
    snd (window_pass b g G (length dataset) i dataset) ! (i + G) = dataset ! k) \<and>
   (0 < g \<and> i + b \<le> length dataset \<longrightarrow>
    snd (window_pass b g (b div g) (length dataset) i dataset) =
      swap_in (i + b div g)
        (taken (map_of (map (\<lambda>x. (x, int g - 1))
                          (map fst (py_slice dataset i (i + b div g)))))
               (b - b div g)
               (map (\<lambda>k. (k, fst (dataset ! k))) [i + b div g..<length dataset]))
        dataset \<and>
    length (taken (map_of (map (\<lambda>x. (x, int g - 1))
                             (map fst (py_slice dataset i (i + b div g)))))
                  (b - b div g)
                  (map (\<lambda>k. (k, fst (dataset ! k))) [i + b div g..<length dataset]))
      \<le> b - b div g)"
proof (intro conjI impI)
  show "take (i + G) (snd (window_pass b g G (length dataset) i dataset)) = take (i + G) dataset"
    by (rule window_pass_take)
next
  assume "1 < g \<and> i + G \<le> k \<and> k < length dataset \<and>
    fst (dataset ! k) \<in> fst ` set (py_slice dataset i (i + G)) \<and>
    (\<forall>m. i + G \<le> m \<and> m < k \<longrightarrow>
       fst (dataset ! m) \<notin> fst ` set (py_slice dataset i (i + G)))"
  then show "snd (window_pass b g G (length dataset) i dataset) ! (i + G) = dataset ! k"
    by (intro window_pass_swaps_first_match) simp_all
next
  assume "0 < g \<and> i + b \<le> length dataset"
  then show "snd (window_pass b g (b div g) (length dataset) i dataset) =
      swap_in (i + b div g)
        (taken (map_of (map (\<lambda>x. (x, int g - 1))
                          (map fst (py_slice dataset i (i + b div g)))))
               (b - b div g)
               (map (\<lambda>k. (k, fst (dataset ! k))) [i + b div g..<length dataset]))
        dataset"
    by (intro window_pass_taken) simp_all
next
  show "length (taken (map_of (map (\<lambda>x. (x, int g - 1))
                             (map fst (py_slice dataset i (i + b div g)))))
                  (b - b div g)
                  (map (\<lambda>k. (k, fst (dataset ! k))) [i + b div g..<length dataset]))
      \<le> b - b div g"
    by (rule length_taken)
qed

theorem scan_runs_to_end_of_list_witness:
  "(1::nat) < 2 \<and> (0::nat) + 4 \<le> length
     [(''a'', 0::nat), (''b'', 1), (''c'', 2), (''d'', 3), (''a'', 4), (''e'', 5), (''b'', 6),
      (''a'', 7)] \<and>
   snd (window_pass 4 2 2
          (length [(''a'', 0::nat), (''b'', 1), (''c'', 2), (''d'', 3), (''a'', 4), (''e'', 5),
                   (''b'', 6), (''a'', 7)]) 0
          [(''a'', 0::nat), (''b'', 1), (''c'', 2), (''d'', 3), (''a'', 4), (''e'', 5), (''b'', 6),
           (''a'', 7)]) ! (0 + 2) = (''a'', 4) \<and>
   snd (window_pass 4 2 (4 div 2)
          (length [(''a'', 0::nat), (''b'', 1), (''c'', 2), (''d'', 3), (''a'', 4), (''e'', 5),
                   (''b'', 6), (''a'', 7)]) 0
          [(''a'', 0::nat), (''b'', 1), (''c'', 2), (''d'', 3), (''a'', 4), (''e'', 5), (''b'', 6),
           (''a'', 7)]) =
     [(''a'', 0), (''b'', 1), (''a'', 4), (''b'', 6), (''c'', 2), (''e'', 5), (''d'', 3), (''a'', 7)]"
proof -
  let ?ds = "[(''a'', 0::nat), (''b'', 1), (''c'', 2), (''d'', 3), (''a'', 4), (''e'', 5),
              (''b'', 6), (''a'', 7)]"
  have first: "\<forall>m. 0 + 2 \<le> m \<and> m < 4 \<longrightarrow> fst (?ds ! m) \<notin> fst ` set (py_slice ?ds 0 (0 + 2))"
  proof (intro allI impI)
    fix m :: nat
    assume "0 + 2 \<le> m \<and> m < 4"
    then have "m = 2 \<or> m = 3" by arith
    then show "fst (?ds ! m) \<notin> fst ` set (py_slice ?ds 0 (0 + 2))"
      by (auto simp: py_slice_def)
  qed
  have match: "fst (?ds ! 4) \<in> fst ` set (py_slice ?ds 0 (0 + 2))"
    by (simp add: py_slice_def)
  have ev: "swap_in (0 + 4 div 2)
        (taken (map_of (map (\<lambda>x. (x, int 2 - 1))
                          (map fst (py_slice ?ds 0 (0 + 4 div 2)))))
               (4 - 4 div 2)
               (map (\<lambda>k. (k, fst (?ds ! k))) [0 + 4 div 2..<length ?ds]))
        ?ds =
     [(''a'', 0), (''b'', 1), (''a'', 4), (''b'', 6), (''c'', 2), (''e'', 5), (''d'', 3), (''a'', 7)]"
    by code_simp
  show ?thesis
    using scan_runs_to_end_of_list[of 0 2 4 2 ?ds 4] first match ev by simp
qed

section \<open>The key of the match\<close>

text \<open>
  The scan compares first components. When the first components of the entries are
  distinct, as the file references of a directory listing are, no entry after the
  representatives has the first component of a representative: the scan swaps nothing,
  whatever the labels are, and \<^verbatim>\<open>group_shuffle\<close> only shuffles and trims.
\<close>

lemma window_pass_distinct:
  assumes d: "distinct (map fst dataset)" and G: "G \<le> length dataset - i"
  shows "window_pass b g G (length dataset) i dataset = (None, dataset)"
proof -
  let ?ids = "map fst (py_slice dataset i (i + G))"
  have skip: "\<forall>k\<in>set [i + G..<length dataset].
                k < length dataset \<and> fst (dataset ! k) \<notin> set ?ids"
  proof
    fix k assume "k \<in> set [i + G..<length dataset]"
    then have k: "i + G \<le> k" "k < length dataset" by simp_all
    have "fst (dataset ! k) \<notin> set ?ids"
    proof
      assume "fst (dataset ! k) \<in> set ?ids"
      then obtain x where x: "x \<in> set (take G (drop i dataset))" "fst x = fst (dataset ! k)"
        unfolding py_slice_def by auto
      then obtain n where n: "n < length (take G (drop i dataset))" "take G (drop i dataset) ! n = x"
        by (auto simp: in_set_conv_nth)
      then have nG: "n < G" and "n < length dataset - i" by simp_all
      then have "i + n < length dataset" by linarith
      then have "x = dataset ! (i + n)" using n by simp
      then have "map fst dataset ! (i + n) = map fst dataset ! k"
        using x(2) k(2) \<open>i + n < length dataset\<close> by simp
      moreover have "i + n < length (map fst dataset)" "k < length (map fst dataset)"
        using k(2) \<open>i + n < length dataset\<close> by simp_all
      ultimately have "i + n = k"
        using d nth_eq_iff_index_eq[of "map fst dataset" "i + n" k] by blast
      then show False using nG k(1) by simp
    qed
    then show "k < length dataset \<and> fst (dataset ! k) \<notin> set ?ids" using k by simp
  qed
  have "scan (i + b) ([i + G..<length dataset] @ [])
          (dataset, i + G, ?ids, map_of (map (\<lambda>x. (x, int g - 1)) ?ids))
        = scan (i + b) [] (dataset, i + G, ?ids, map_of (map (\<lambda>x. (x, int g - 1)) ?ids))"
    using skip by (rule scan_append_skip)
  then show ?thesis
    unfolding window_pass_unfold[OF G] by simp
qed

lemma batches_loop_distinct:
  assumes "distinct (map fst dataset)" and "0 < g"
    and "\<forall>i\<in>set is. i + b \<le> length dataset"
  shows "batches_loop b g (b div g) (length dataset) is dataset = (None, dataset)"
  using assms(3)
proof (induction "is")
  case Nil
  then show ?case by simp
next
  case (Cons i "is")
  have "b div g \<le> b" by simp
  moreover have "i + b \<le> length dataset" using Cons.prems by simp
  ultimately have "b div g \<le> length dataset - i" by linarith
  with assms(1) have "window_pass b g (b div g) (length dataset) i dataset = (None, dataset)"
    by (rule window_pass_distinct)
  then show ?case using Cons by simp
qed

lemma group_shuffle_distinct_references:
  assumes d: "distinct (map fst dataset)" and rnd: "mset (rnd dataset) = mset dataset"
    and b: "0 < b" and g: "0 < g" and m: "b mod g = 0"
  shows "group_shuffle rnd dataset b shuf g =
           (None, take (length dataset div b * b) (if shuf then rnd dataset else dataset))"
proof -
  let ?sh = "if shuf then rnd dataset else dataset"
  let ?tr = "pop_to_multiple b ?sh"
  have "mset (map fst ?sh) = mset (map fst dataset)"
    using rnd by simp
  then have "distinct (map fst ?sh) = distinct (map fst dataset)"
    by (rule mset_eq_imp_distinct_iff)
  then have "distinct (map fst ?sh)"
    using d by simp
  have len_sh: "length ?sh = length dataset"
    using rnd by (auto dest: mset_eq_length)
  have tr: "?tr = take (length dataset div b * b) ?sh"
    using pop_to_multiple_take[OF b, of ?sh] len_sh by simp
  have dt: "distinct (map fst ?tr)"
    unfolding tr using \<open>distinct (map fst ?sh)\<close> by (simp add: take_map[symmetric])
  have len: "length ?tr = length ?sh div b * b"
    using b by (rule length_pop_to_multiple)
  have "\<forall>i\<in>set (range_step (length ?tr) b). i + b \<le> length ?tr"
    unfolding len using range_step_windows[OF b] by blast
  with dt g have "batches_loop b g (b div g) (length ?tr) (range_step (length ?tr) b) ?tr
                   = (None, ?tr)"
    by (rule batches_loop_distinct)
  then have "group_shuffle rnd dataset b shuf g = (None, ?tr)"
    using b g m unfolding group_shuffle_def Let_def by simp
  then show ?thesis using tr by simp
qed

text \<open>
  Claim C1 says that an entry is swapped into the window exactly when its label equals
  an active representative label. The code compares \<^verbatim>\<open>data[0]\<close>, the first component
  of the entry, which for the \<^verbatim>\<open>(file, label)\<close> entries of both discovery strategies
  is the sample reference: in the list below the entry \<^verbatim>\<open>(d, 0)\<close> at position 3 has the
  label of the representative \<^verbatim>\<open>(a, 0)\<close>, which has one slot left, and is not moved.
\<close>

theorem group_shuffle_compares_references:
  "group_shuffle rev [(''a'', 0::nat), (''b'', 1), (''c'', 2), (''d'', 0)] 4 False 2
     = (None, [(''a'', 0), (''b'', 1), (''c'', 2), (''d'', 0)])"
  by code_simp

section \<open>Properties of batch assembly and normalization\<close>

text \<open>
  What \<^verbatim>\<open>extract_batch\<close> returns and when. A batch that is returned has the shape
  \<^verbatim>\<open>[len(batch_set), 1, 1, n]\<close> and the labels of the window in order, whatever the
  decoder and the augmentation do. With a slice duration that is not zero, a decoder
  that returns at least one and at most \<^verbatim>\<open>slice_samples\<close> samples at one rate, and
  an augmentation that keeps the length, a window that is not empty is stacked to
  \<^verbatim>\<open>[len(batch_set), 1, 1, slice_samples]\<close>: every sample has been padded to
  \<^verbatim>\<open>slice_samples\<close> by \<^verbatim>\<open>process_sample\<close>, and the padding of \<^verbatim>\<open>extract_batch\<close> adds
  nothing.
\<close>

lemma np_stack_equal:
  assumes "shs \<noteq> []" and "\<forall>t\<in>set shs. t = sh"
  shows "np_stack shs = Inr (length shs # sh)"
  using assms unfolding np_stack_def
  by (cases shs) (auto simp: list_all_iff)

lemma process_sample_scales_by_maximum:
  assumes "data \<noteq> []" and "1 / 1000000 < Max (set data)"
  shows "process_sample data (length data) = Inr (map (\<lambda>x. x / Max (set data)) data)"
  using assms unfolding process_sample_def Let_def by simp

lemma process_sample_no_samples: "process_sample [] n = Inl ValueError"
  by (simp add: process_sample_def)

lemma process_sample_length:
  assumes "data \<noteq> []"
  shows "\<exists>out. process_sample data n = Inr out \<and> length out = max (length data) n"
  using assms unfolding process_sample_def Let_def by auto

lemma process_sample_file_no_samples:
  assumes "pp_duration config = 0"
    and "\<forall>sr. fst (librosa_load io file sr 0 0) = []"
  shows "process_sample_file io config k file label = Inl ValueError"
proof -
  let ?sr = "if pp_rate config > 0 then Some (nat (pp_rate config)) else None"
  obtain data rate where l: "librosa_load io file ?sr 0 0 = (data, rate)"
    by (cases "librosa_load io file ?sr 0 0") auto
  have "fst (librosa_load io file ?sr 0 0) = []"
    using assms(2) by (rule spec)
  then have "data = []" unfolding l by simp
  then show ?thesis
    unfolding process_sample_file_def Let_def using assms(1) l
    by (simp add: process_sample_no_samples)
qed

lemma process_sample_file_fixed:
  assumes ld: "\<And>f sr offset.
               case librosa_load io f sr offset \<bar>pp_duration config\<bar> of
                 (data, rate) \<Rightarrow>
                   data \<noteq> [] \<and> rate = r \<and>
                   length data \<le> nat \<lfloor>\<bar>pp_duration config\<bar> * real r + 1 / 2\<rfloor>"
    and pp: "\<And>k data. length (pp_process io k data) = length data"
    and n: "n = nat \<lfloor>\<bar>pp_duration config\<bar> * real r + 1 / 2\<rfloor>"
  shows "\<exists>input. process_sample_file io config k f lab = Inr (input, lab) \<and> length input = n"
proof -
  let ?sr = "if pp_rate config > 0 then Some (nat (pp_rate config)) else None"
  let ?dur = "\<bar>pp_duration config\<bar>"
  let ?off = "if pp_duration config > 0 \<and> get_duration io f > ?dur
              then random_uniform io k (get_duration io f - ?dur) else 0"
  obtain data rate where l: "librosa_load io f ?sr ?off ?dur = (data, rate)"
    by (cases "librosa_load io f ?sr ?off ?dur") auto
  have ne: "data \<noteq> []" and rate: "rate = r" and le: "length data \<le> n"
    using ld[of f ?sr ?off] unfolding l n by simp_all
  obtain out where o: "process_sample data n = Inr out" and lo: "length out = max (length data) n"
    using process_sample_length[OF ne, of n] by blast
  have s: "nat \<lfloor>?dur * real rate + 1 / 2\<rfloor> = n"
    unfolding n rate by (rule refl)
  have "process_sample_file io config k f lab = Inr (pp_process io k out, lab)"
    unfolding process_sample_file_def Let_def l prod.case s o by simp
  moreover have "length (pp_process io k out) = n"
    using pp lo le by simp
  ultimately show ?thesis by blast
qed

lemma load_data_fixed:
  assumes ld: "\<And>f sr offset.
               case librosa_load io f sr offset \<bar>pp_duration config\<bar> of
                 (data, rate) \<Rightarrow>
                   data \<noteq> [] \<and> rate = r \<and>
                   length data \<le> nat \<lfloor>\<bar>pp_duration config\<bar> * real r + 1 / 2\<rfloor>"
    and pp: "\<And>k data. length (pp_process io k data) = length data"
    and n: "n = nat \<lfloor>\<bar>pp_duration config\<bar> * real r + 1 / 2\<rfloor>"
  shows "load_data io config k batch_set =
           Inr (map (\<lambda>x. [1, n]) batch_set, map snd batch_set)"
proof (induction batch_set arbitrary: k)
  case Nil
  show ?case by simp
next
  case (Cons x rest)
  obtain f lab where x: "x = (f, lab)" by (cases x) auto
  obtain input where p: "process_sample_file io config k f lab = Inr (input, lab)"
    and len: "length input = n"
    using process_sample_file_fixed[OF ld pp n, of k f lab] by blast
  show ?case
    unfolding x load_data.simps p Cons.IH using len by simp
qed

lemma extract_batch_fixed_length:
  assumes ne: "batch_set \<noteq> []"
    and ld: "\<And>f sr offset.
               case librosa_load io f sr offset \<bar>pp_duration config\<bar> of
                 (data, rate) \<Rightarrow>
                   data \<noteq> [] \<and> rate = r \<and>
                   length data \<le> nat \<lfloor>\<bar>pp_duration config\<bar> * real r + 1 / 2\<rfloor>"
    and pp: "\<And>k data. length (pp_process io k data) = length data"
  shows "extract_batch io config batch_set =
           Inr ([length batch_set, 1, 1, nat \<lfloor>\<bar>pp_duration config\<bar> * real r + 1 / 2\<rfloor>],
                map snd batch_set)"
proof -
  define n where "n = nat \<lfloor>\<bar>pp_duration config\<bar> * real r + 1 / 2\<rfloor>"
  let ?inputs = "map (\<lambda>x. [1, n]) batch_set"
  have l: "load_data io config 0 batch_set = Inr (?inputs, map snd batch_set)"
    using ld pp n_def by (rule load_data_fixed)
  have "set (map last ?inputs) = {n}"
    using ne by (cases batch_set) auto
  then have mx: "Max (set (map last ?inputs)) = n" by simp
  have padded: "map (\<lambda>i. np_pad (n - last i) i) ?inputs = ?inputs"
    by (simp add: np_pad_def)
  have st: "np_stack ?inputs = Inr (length batch_set # [1, n])"
    using np_stack_equal[of ?inputs "[1, n]"] ne by simp
  have ex: "expand_dims (length batch_set # [1, n]) = [length batch_set, 1, 1, n]"
    by (simp add: expand_dims_def)
  have "extract_batch io config batch_set = Inr ([length batch_set, 1, 1, n], map snd batch_set)"
    unfolding extract_batch_def l prod.case sum.case Let_def mx padded using ne st ex by simp
  then show ?thesis unfolding n_def .
qed

lemma extract_batch_fixed_slicing_example:
  "extract_batch example_audio \<lparr>pp_rate = 4, pp_duration = - 1\<rparr> [(''a'', 0::nat), (''b'', 1)]
     = Inr ([2, 1, 1, 4], [0, 1])"
  by (simp add: extract_batch_def process_sample_file_def process_sample_def example_audio_def
        np_pad_def np_stack_def expand_dims_def)

lemma load_data_Inr:
  assumes "load_data io config k batch_set = Inr (inputs, labels)"
  shows "labels = map snd batch_set \<and> length inputs = length batch_set \<and>
         (\<forall>i\<in>set inputs. \<exists>n. i = [1, n])"
  using assms
proof (induction batch_set arbitrary: k inputs labels)
  case Nil
  then show ?case by simp
next
  case (Cons x rest)
  obtain f lab where x: "x = (f, lab)" by (cases x) auto
  from Cons.prems obtain input lab' inputs' labels'
    where p: "process_sample_file io config k f lab = Inr (input, lab')"
      and r: "load_data io config (k + 1) rest = Inr (inputs', labels')"
      and i: "inputs = [1, length input] # inputs'" and l: "labels = lab' # labels'"
    unfolding x by (auto split: sum.splits prod.splits)
  have "lab' = lab"
    using p unfolding process_sample_file_def Let_def
    by (auto split: sum.splits prod.splits)
  moreover note Cons.IH[OF r]
  ultimately show ?case unfolding x i l by simp
qed

lemma np_stack_Inr:
  assumes "np_stack shs = Inr st"
  shows "shs \<noteq> [] \<and> st = length shs # hd shs \<and> (\<forall>t\<in>set shs. t = hd shs)"
  using assms unfolding np_stack_def
  by (cases shs) (auto simp: list_all_iff split: if_splits)

lemma extract_batch_returns_claimed_shape:
  assumes "extract_batch io config batch_set = Inr (sh, labels)"
  shows "labels = map snd batch_set \<and> (\<exists>n. sh = [length batch_set, 1, 1, n])"
proof -
  from assms obtain inputs inputs' st
    where l: "load_data io config 0 batch_set = Inr (inputs, labels)"
      and pad: "(if pp_duration config \<le> 0 then
                   (if inputs = [] then Inl ValueError
                    else Inr (map (\<lambda>i. np_pad (Max (set (map last inputs)) - last i) i) inputs))
                 else Inr inputs) = Inr inputs'"
      and stack: "np_stack inputs' = Inr st"
      and sh: "sh = expand_dims st"
    unfolding extract_batch_def Let_def
    by (auto split: sum.splits prod.splits if_splits)
  note ld = load_data_Inr[OF l]
  note ns = np_stack_Inr[OF stack]
  have len: "length inputs' = length batch_set"
    using pad ld by (auto split: if_splits)
  have "\<exists>n. hd inputs' = [1, n]"
  proof (cases "pp_duration config \<le> 0")
    case False
    then have "inputs' = inputs" using pad by simp
    then show ?thesis using ld ns by (cases inputs) auto
  next
    case True
    let ?m = "Max (set (map last inputs))"
    from True pad have ne: "inputs \<noteq> []"
      and eq: "inputs' = map (\<lambda>i. np_pad (?m - last i) i) inputs"
      by (auto split: if_splits)
    have "?m \<in> set (map last inputs)"
      using ne by (intro Max_in) simp_all
    then obtain i0 where i0: "i0 \<in> set inputs" and m: "last i0 = ?m" by auto
    obtain n where n: "i0 = [1, n]" using ld i0 by blast
    have "np_pad (?m - last i0) i0 \<in> set inputs'"
      unfolding eq using i0 by simp
    then have "np_pad (?m - last i0) i0 = hd inputs'" using ns by blast
    then have "hd inputs' = i0" unfolding m by (simp add: np_pad_def)
    then show ?thesis using n by simp
  qed
  then obtain n where "hd inputs' = [1, n]" by blast
  then have "sh = [length batch_set, 1, 1, n]"
    unfolding sh using ns len by (simp add: expand_dims_def)
  then show ?thesis using ld by blast
qed

text \<open>
  Claim C5 says that \<^verbatim>\<open>extract_batch\<close> yields inputs of shape
  \<^verbatim>\<open>[batch_size, 1, 1, signal_length]\<close> in every mode of \<^verbatim>\<open>pp_duration\<close>, the
  natural-length mode included, where the samples of a window differ in length and are
  padded to the longest. The mode without slicing is \<^verbatim>\<open>pp_duration = 0\<close>
  (\<^verbatim>\<open>'0: no slicing, -: fixed slicing, +: random slicing'\<close>). There \<^verbatim>\<open>process_sample\<close>
  asks \<^verbatim>\<open>librosa.load\<close> for \<^verbatim>\<open>duration = np.abs(0) = 0\<close> seconds at offset 0: with a
  decoder that returns no samples for a duration of zero seconds, \<^verbatim>\<open>np.max(data)\<close>
  raises \<^verbatim>\<open>ValueError\<close> on the first file of the window, and for an empty window
  \<^verbatim>\<open>max\<close> of the empty list of lengths raises it. No batch is yielded in this mode.
\<close>

theorem extract_batch_natural_length_raises:
  "pp_duration config = 0 \<and> (\<forall>file sr. fst (librosa_load io file sr 0 0) = []) \<longrightarrow>
     extract_batch io config batch_set = Inl ValueError"
proof
  assume a: "pp_duration config = 0 \<and> (\<forall>file sr. fst (librosa_load io file sr 0 0) = [])"
  show "extract_batch io config batch_set = Inl ValueError"
  proof (cases batch_set)
    case Nil
    then show ?thesis
      unfolding extract_batch_def using a by simp
  next
    case (Cons x rest)
    obtain f lab where x: "x = (f, lab)" by (cases x) auto
    have "process_sample_file io config 0 f lab = Inl ValueError"
      using a by (intro process_sample_file_no_samples) simp_all
    then show ?thesis
      unfolding extract_batch_def Cons x by simp
  qed
qed

theorem extract_batch_natural_length_raises_witness:
  "pp_duration \<lparr>pp_rate = 4, pp_duration = 0\<rparr> = 0 \<and>
   extract_batch example_audio \<lparr>pp_rate = 4, pp_duration = 0\<rparr> [(''a'', 0::nat), (''b'', 1)]
     = Inl ValueError"
  using extract_batch_natural_length_raises
          [of "\<lparr>pp_rate = 4, pp_duration = 0\<rparr>" example_audio "[(''a'', 0::nat), (''b'', 1)]"]
  by (simp add: example_audio_def)

text \<open>
  Claim C6 says that a sample whose peak magnitude exceeds \<^verbatim>\<open>1e-6\<close> is returned with
  peak absolute amplitude 1. The code divides by \<^verbatim>\<open>np.max(data)\<close>, the largest signed
  value: a sample with a larger negative peak comes out with a peak above 1, and a
  sample without a positive value is left as it is.
\<close>

theorem normalization_uses_signed_maximum:
  "process_sample [1/2, -1] 2 = Inr [1, -2] \<and> peak [1, -2] = 2 \<and>
   process_sample [-1/2, -1/4] 2 = Inr [-1/2, -1/4] \<and> peak [-1/2, -1/4] = 1/2"
  by (simp add: process_sample_def peak_def)

section \<open>Properties of the batch generator\<close>

lemma epochs_loop_frame:
  "take (length h) (snd (snd (epochs_loop rnd b g dataset n ms start shuf es h cur))) = h"
proof (induction es arbitrary: h cur)
  case Nil
  then show ?case by simp
next
  case (Cons epoch es)
  show ?case
  proof (cases "0 < epoch")
    case False
    then show ?thesis using Cons.IH[of h cur]
      by (simp add: Let_def case_prod_unfold)
  next
    case True
    obtain e xs where gs: "group_shuffle (rnd epoch) ((h @ [h ! dataset]) ! length h) b shuf g = (e, xs)"
      by (metis surj_pair)
    have ga: "group_shuffle_at (rnd epoch) (length h) b shuf g (h @ [h ! dataset]) = (e, h @ [xs])"
      unfolding group_shuffle_at_def gs by simp
    show ?thesis
    proof (cases e)
      case (Some err)
      then show ?thesis using True ga
        by (simp add: Let_def list_copy_def)
    next
      case None
      have "take (length (h @ [xs]))
              (snd (snd (epochs_loop rnd b g dataset n ms start shuf es (h @ [xs]) (length h))))
            = h @ [xs]"
        by (rule Cons.IH)
      then have "take (length h) (take (length (h @ [xs]))
              (snd (snd (epochs_loop rnd b g dataset n ms start shuf es (h @ [xs]) (length h)))))
            = take (length h) (h @ [xs])"
        by simp
      then have "take (length h)
              (snd (snd (epochs_loop rnd b g dataset n ms start shuf es (h @ [xs]) (length h))))
            = h"
        by (simp add: min_def)
      then show ?thesis using True ga None
        by (simp add: Let_def list_copy_def case_prod_unfold)
    qed
  qed
qed

lemma epochs_loop_zero:
  "epochs_loop rnd b g dataset n ms start shuf (0 # es) h cur =
     (step_windows (h ! cur) b start (min n ms) @
        fst (epochs_loop rnd b g dataset n ms start shuf es h cur),
      snd (epochs_loop rnd b g dataset n ms start shuf es h cur))"
  by (simp add: Let_def case_prod_unfold)

lemma epochs_loop_pos:
  assumes "0 < epoch"
    and "group_shuffle (rnd epoch) (h ! dataset) b shuf g = (None, xs)"
  shows "epochs_loop rnd b g dataset n ms start shuf (epoch # es) h cur =
     (step_windows xs b (start - n * epoch) (min n (ms - n * epoch)) @
        fst (epochs_loop rnd b g dataset n ms start shuf es (h @ [xs]) (length h)),
      snd (epochs_loop rnd b g dataset n ms start shuf es (h @ [xs]) (length h)))"
proof -
  have "group_shuffle_at (rnd epoch) (length h) b shuf g (h @ [h ! dataset]) = (None, h @ [xs])"
    unfolding group_shuffle_at_def by (simp add: assms(2))
  then show ?thesis
    using assms(1) by (simp add: Let_def list_copy_def case_prod_unfold)
qed

declare epochs_loop.simps(2) [simp del]

lemma epochs_loop_windows:
  assumes b: "0 < b" and g: "0 < g" and m: "b mod g = 0"
    and rnd: "\<forall>e xs. mset (rnd e xs) = mset xs"
    and d: "dataset < length h" and s: "sorted es" and c: "0 \<in> set es \<longrightarrow> cur = dataset"
  shows "fst (epochs_loop rnd b g dataset n ms start shuf es h cur) =
           concat (map (\<lambda>epoch. step_windows (epoch_dataset rnd b g shuf (h ! dataset) epoch) b
                                  (max 0 (start - n * epoch)) (min n (ms - n * epoch))) es) \<and>
         fst (snd (epochs_loop rnd b g dataset n ms start shuf es h cur)) = None"
  using d s c
proof (induction es arbitrary: h cur)
  case Nil
  then show ?case by simp
next
  case (Cons epoch es)
  have s': "sorted es" using Cons.prems(2) by simp
  show ?case
  proof (cases "0 < epoch")
    case False
    then have e0: "epoch = 0" by simp
    then have cur: "cur = dataset" using Cons.prems(3) by simp
    have "0 \<in> set es \<longrightarrow> cur = dataset" using cur by simp
    note ih = Cons.IH[OF Cons.prems(1) s' this]
    have ed: "epoch_dataset rnd b g shuf (h ! dataset) 0 = h ! dataset"
      by (simp add: epoch_dataset_def)
    show ?thesis
      unfolding e0 epochs_loop_zero using ih cur ed by simp
  next
    case True
    let ?xs = "snd (group_shuffle (rnd epoch) (h ! dataset) b shuf g)"
    have "mset (rnd epoch (h ! dataset)) = mset (h ! dataset)" using rnd by simp
    then have "fst (group_shuffle (rnd epoch) (h ! dataset) b shuf g) = None"
      using b g m by (rule group_shuffle_no_error)
    then have gs: "group_shuffle (rnd epoch) (h ! dataset) b shuf g = (None, ?xs)"
      by (metis prod.collapse)
    have 1: "dataset < length (h @ [?xs])" using Cons.prems(1) by simp
    have "\<forall>x\<in>set es. epoch \<le> x" using Cons.prems(2) by simp
    then have 2: "0 \<in> set es \<longrightarrow> length h = dataset" using True by auto
    note ih = Cons.IH[OF 1 s' 2]
    have 3: "(h @ [?xs]) ! dataset = h ! dataset" using Cons.prems(1) by (simp add: nth_append)
    have ed: "epoch_dataset rnd b g shuf (h ! dataset) epoch = ?xs"
      using True by (simp add: epoch_dataset_def)
    show ?thesis
      unfolding epochs_loop_pos[where rnd = rnd and h = h and dataset = dataset, OF True gs]
      using ih 3 ed by simp
  qed
qed

lemma epochs_loop_start:
  assumes "\<forall>epoch\<in>set es. k \<le> n * epoch"
  shows "epochs_loop rnd b g dataset n ms k shuf es h cur =
         epochs_loop rnd b g dataset n ms 0 shuf es h cur"
  using assms
proof (induction es arbitrary: h cur)
  case Nil
  then show ?case by simp
next
  case (Cons epoch es)
  have k: "k - n * epoch = 0 - n * epoch" using Cons.prems by simp
  have ih: "epochs_loop rnd b g dataset n ms k shuf es h' cur' =
            epochs_loop rnd b g dataset n ms 0 shuf es h' cur'" for h' cur'
    using Cons.prems by (intro Cons.IH) simp
  show ?case
    unfolding epochs_loop.simps(2) Let_def k ih by (rule refl)
qed

lemma step_windows_drop:
  "step_windows ds b k n = drop k (step_windows ds b 0 n)"
  unfolding step_windows_def by (simp add: drop_map)

lemma length_step_windows: "length (step_windows ds b k n) = n - k"
  unfolding step_windows_def by simp

lemma gen_batches_origin_unfold:
  assumes "k < n"
  shows "fst (gen_batches_origin rnd b g h dataset n N k shuf) =
           (if N = 0 then []
            else step_windows (h ! dataset) b k n @
                 fst (epochs_loop rnd b g dataset n (n * N) 0 shuf [1..<N] h dataset))"
proof (cases "N = 0")
  case True
  then show ?thesis using assms unfolding gen_batches_origin_def Let_def by simp
next
  case False
  have e: "[k div n..<N] = 0 # [1..<N]"
    using assms False by (simp add: upt_conv_Cons)
  have st: "\<forall>epoch\<in>set [1..<N]. k \<le> n * epoch"
  proof
    fix epoch assume "epoch \<in> set [1..<N]"
    then have "1 \<le> epoch" by simp
    then have "n \<le> n * epoch" by simp
    then show "k \<le> n * epoch" using assms by linarith
  qed
  have "n \<le> n * N" using False by simp
  then have mn: "min n (n * N) = n" by simp
  have "gen_batches_origin rnd b g h dataset n N k shuf =
          epochs_loop rnd b g dataset n (n * N) k shuf (0 # [1..<N]) h dataset"
    using assms unfolding gen_batches_origin_def Let_def e by simp
  then show ?thesis
    unfolding epochs_loop_zero epochs_loop_start[OF st] mn using False by simp
qed

text \<open>
  Claim C8. For every start step \<open>k\<close> below \<^verbatim>\<open>epoch_steps\<close>, the windows selected by
  the generator started at \<open>k\<close> are those of the generator started at 0 without the
  first \<open>k\<close>: the whole sequences agree when both runs see the same outcomes of
  \<^verbatim>\<open>random.shuffle\<close>, and the windows of epoch 0 (the first \<open>epoch_steps - k\<close> of the
  one, the first \<open>epoch_steps\<close> of the other) agree whatever these outcomes are.
\<close>

theorem resume_equivalence:
  assumes "k < n"
  shows "fst (gen_batches_origin rnd b g h dataset n N k shuf) =
           drop k (fst (gen_batches_origin rnd b g h dataset n N 0 shuf)) \<and>
         take (n - k) (fst (gen_batches_origin rnd b g h dataset n N k shuf)) =
           drop k (take n (fst (gen_batches_origin rnd' b g h dataset n N 0 shuf)))"
proof (cases "N = 0")
  case True
  have z: "0 < n" using assms by simp
  show ?thesis
    unfolding gen_batches_origin_unfold[OF assms] gen_batches_origin_unfold[OF z]
    using True by simp
next
  case False
  have z: "0 < n" using assms by simp
  let ?W = "step_windows (h ! dataset) b 0 n"
  have w: "step_windows (h ! dataset) b k n = drop k ?W"
    by (rule step_windows_drop)
  have l: "length ?W = n" by (simp add: length_step_windows)
  show ?thesis
    unfolding gen_batches_origin_unfold[OF assms] gen_batches_origin_unfold[OF z] w
    using False assms l by simp
qed

theorem resume_equivalence_witness:
  "(1::nat) < 2 \<and>
   fst (gen_batches_origin (\<lambda>e. rev) 2 2
          [[(''a'', 0::nat), (''b'', 1), (''c'', 0), (''d'', 1)]] 0 2 2 1 False) =
   drop 1 (fst (gen_batches_origin (\<lambda>e. rev) 2 2
          [[(''a'', 0::nat), (''b'', 1), (''c'', 0), (''d'', 1)]] 0 2 2 0 False))"
  using resume_equivalence[of 1 2 "\<lambda>e. rev" 2 2
          "[[(''a'', 0::nat), (''b'', 1), (''c'', 0), (''d'', 1)]]" 0 2 False "\<lambda>e. rev"]
  by simp

text \<open>
  Claim C9. The generator changes no list object that exists when it starts, the
  caller's list among them: it only adds the copies it makes. With sizes for which
  \<^verbatim>\<open>group_shuffle\<close> raises nothing, the windows of epoch 0 are cut from the caller's
  list as handed in and those of every later epoch from the shuffler's result on a
  fresh copy of that list.
\<close>

theorem generator_frame:
  "take (length h) (snd (snd (gen_batches_origin rnd b g h dataset n N start shuf))) = h \<and>
   (dataset < length h \<longrightarrow>
      snd (snd (gen_batches_origin rnd b g h dataset n N start shuf)) ! dataset = h ! dataset) \<and>
   (dataset < length h \<and> 0 < n \<and> 0 < b \<and> 0 < g \<and> b mod g = 0 \<and>
    (\<forall>e xs. mset (rnd e xs) = mset xs) \<longrightarrow>
      fst (snd (gen_batches_origin rnd b g h dataset n N start shuf)) = None \<and>
      fst (gen_batches_origin rnd b g h dataset n N start shuf) =
        concat (map (\<lambda>epoch. step_windows (epoch_dataset rnd b g shuf (h ! dataset) epoch) b
                               (max 0 (start - n * epoch)) (min n (n * N - n * epoch)))
                  [start div n..<N]))"
proof -
  let ?r = "gen_batches_origin rnd b g h dataset n N start shuf"
  have frame: "take (length h) (snd (snd ?r)) = h"
    unfolding gen_batches_origin_def Let_def
    by (simp add: epochs_loop_frame)
  have same: "snd (snd ?r) ! dataset = h ! dataset" if "dataset < length h"
  proof -
    have "take (length h) (snd (snd ?r)) ! dataset = snd (snd ?r) ! dataset"
      using that by simp
    then show ?thesis using frame by simp
  qed
  have win: "fst (snd ?r) = None \<and>
      fst ?r =
        concat (map (\<lambda>epoch. step_windows (epoch_dataset rnd b g shuf (h ! dataset) epoch) b
                               (max 0 (start - n * epoch)) (min n (n * N - n * epoch)))
                  [start div n..<N])"
    if v: "dataset < length h \<and> 0 < n \<and> 0 < b \<and> 0 < g \<and> b mod g = 0 \<and>
           (\<forall>e xs. mset (rnd e xs) = mset xs)"
  proof -
    have r: "?r = epochs_loop rnd b g dataset n (n * N) start shuf [start div n..<N] h dataset"
      using v unfolding gen_batches_origin_def Let_def by simp
    have "sorted [start div n..<N]" by simp
    moreover have "0 \<in> set [start div n..<N] \<longrightarrow> dataset = dataset" by simp
    ultimately have "fst (epochs_loop rnd b g dataset n (n * N) start shuf [start div n..<N] h dataset) =
           concat (map (\<lambda>epoch. step_windows (epoch_dataset rnd b g shuf (h ! dataset) epoch) b
                                  (max 0 (start - n * epoch)) (min n (n * N - n * epoch)))
                     [start div n..<N]) \<and>
         fst (snd (epochs_loop rnd b g dataset n (n * N) start shuf [start div n..<N] h dataset)) = None"
      using v by (intro epochs_loop_windows) simp_all
    then show ?thesis unfolding r by simp
  qed
  show ?thesis using frame same win by blast
qed

theorem generator_frame_witness:
  "fst (snd (gen_batches_origin (\<lambda>e. rev) 2 2
          [[(''a'', 0::nat), (''b'', 1), (''c'', 0), (''d'', 1)]] 0 2 2 0 True)) = None \<and>
   snd (snd (gen_batches_origin (\<lambda>e. rev) 2 2
          [[(''a'', 0::nat), (''b'', 1), (''c'', 0), (''d'', 1)]] 0 2 2 0 True)) ! 0 =
     [(''a'', 0::nat), (''b'', 1), (''c'', 0), (''d'', 1)]"
  using generator_frame[of "[[(''a'', 0::nat), (''b'', 1), (''c'', 0), (''d'', 1)]]"
          "\<lambda>e. rev" 2 2 0 2 2 0 True]
  by simp

end
